theory Spec2Isabelle
  imports Main "HOL-Library.Word"
begin

section \<open>JavaScript strings\<close>

text \<open>
  A JavaScript string is a sequence of UTF-16 code units. String literals of the
  source are ASCII and are written with \<open>str\<close>.
\<close>

type_synonym cu = "16 word"
type_synonym jsstring = "cu list"

definition str :: "string \<Rightarrow> jsstring" where
  "str s = map of_char s"

abbreviation HYPHEN :: cu where "HYPHEN \<equiv> 0x2D"
abbreviation COLON :: cu where "COLON \<equiv> 0x3A"
abbreviation AT :: cu where "AT \<equiv> 0x40"
abbreviation DOT :: cu where "DOT \<equiv> 0x2E"
abbreviation ZERO :: cu where "ZERO \<equiv> 0x30"

subsection \<open>Character classes of ECMAScript regular expressions\<close>

text \<open>\<open>\d\<close> is \<open>[0-9]\<close>.\<close>

definition isDigit :: "cu \<Rightarrow> bool" where
  "isDigit c = (0x30 \<le> c \<and> c \<le> 0x39)"

definition isLower :: "cu \<Rightarrow> bool" where
  "isLower c = (0x61 \<le> c \<and> c \<le> 0x7A)"

definition isUpper :: "cu \<Rightarrow> bool" where
  "isUpper c = (0x41 \<le> c \<and> c \<le> 0x5A)"

text \<open>\<open>\w\<close> is \<open>[A-Za-z0-9_]\<close> (no \<open>u\<close> or \<open>i\<close> flag is used in the source).\<close>

definition isWord :: "cu \<Rightarrow> bool" where
  "isWord c = (isLower c \<or> isUpper c \<or> isDigit c \<or> c = 0x5F)"

text \<open>
  \<open>\s\<close> is WhiteSpace together with LineTerminator of ECMA-262: TAB, LF, VT, FF, CR,
  SP, NBSP, U+1680, U+2000 to U+200A, LS, PS, U+202F, U+205F, U+3000 and the BOM.
  \<open>String.prototype.trim\<close> removes the same set.
\<close>

definition isSpace :: "cu \<Rightarrow> bool" where
  "isSpace c =
     ((0x09 \<le> c \<and> c \<le> 0x0D) \<or> c = 0x20 \<or> c = 0xA0 \<or> c = 0x1680
      \<or> (0x2000 \<le> c \<and> c \<le> 0x200A) \<or> c = 0x2028 \<or> c = 0x2029
      \<or> c = 0x202F \<or> c = 0x205F \<or> c = 0x3000 \<or> c = 0xFEFF)"

subsection \<open>String methods\<close>

text \<open>
  \<open>String.prototype.toLowerCase\<close>, one code unit at a time. The ASCII letters, the
  Latin-1 capitals and the two code points whose lower case contains an ASCII letter
  (U+0130, which becomes \<open>i\<close> followed by U+0307, and the Kelvin sign U+212A, which
  becomes \<open>k\<close>) are mapped as the Unicode tables say. Every other code unit is kept:
  the cased characters among them are outside ASCII, are not white space, and have a
  lower case outside ASCII that is not white space either, so neither the slug filter
  \<open>[^\w\s-]\<close> nor the membership in the enumeration of modes can tell them from
  their lower case. This function is used for the slug and for the mode only: the
  e-mail field, which stores such characters, takes the lower-casing of the runtime
  as a parameter.
\<close>

definition lowerUnit :: "cu \<Rightarrow> jsstring" where
  "lowerUnit c =
     (if isUpper c then [c + 0x20]
      else if 0xC0 \<le> c \<and> c \<le> 0xDE \<and> c \<noteq> 0xD7 then [c + 0x20]
      else if c = 0x130 then [0x69, 0x307]
      else if c = 0x212A then [0x6B]
      else [c])"

definition toLowerCase :: "jsstring \<Rightarrow> jsstring" where
  "toLowerCase s = concat (map lowerUnit s)"

definition trimStart :: "jsstring \<Rightarrow> jsstring" where
  "trimStart s = dropWhile isSpace s"

definition trimEnd :: "jsstring \<Rightarrow> jsstring" where
  "trimEnd s = rev (dropWhile isSpace (rev s))"

definition trim :: "jsstring \<Rightarrow> jsstring" where
  "trim s = trimEnd (trimStart s)"

text \<open>\<open>s.padStart(n, '0')\<close>: zeros in front until the length is at least \<open>n\<close>.\<close>

definition padStart0 :: "nat \<Rightarrow> jsstring \<Rightarrow> jsstring" where
  "padStart0 n s = replicate (n - length s) ZERO @ s"

text \<open>
  \<open>parseInt(s, 10)\<close> on a string of decimal digits, the only strings the source
  passes to it (they are capture groups of \<open>\d{n}\<close>).
\<close>

definition digitVal :: "cu \<Rightarrow> nat" where
  "digitVal c = unat c - 48"

definition parseInt :: "jsstring \<Rightarrow> nat" where
  "parseInt s = foldl (\<lambda>a c. 10 * a + digitVal c) 0 s"

text \<open>
  \<open>Number.prototype.toString(radix)\<close> on a non-negative integer, with the digits
  \<open>0-9a-z\<close>; \<open>String(n)\<close> is radix 10.
\<close>

definition alphabet :: jsstring where
  "alphabet = str ''0123456789abcdefghijklmnopqrstuvwxyz''"

function digitsOf :: "nat \<Rightarrow> nat \<Rightarrow> jsstring" where
  "digitsOf b n =
     (if b < 2 \<or> n < b then [alphabet ! n]
      else digitsOf b (n div b) @ [alphabet ! (n mod b)])"
  by pat_completeness auto
termination
  by (relation "measure (\<lambda>(b, n). n)") auto

declare digitsOf.simps [simp del]

definition numToString :: "nat \<Rightarrow> nat \<Rightarrow> jsstring" where
  "numToString radix n = digitsOf radix n"

definition String :: "nat \<Rightarrow> jsstring" where
  "String n = numToString 10 n"

section \<open>Regular expressions\<close>

text \<open>
  The patterns that the source only tests against a whole string (each is anchored
  by \<open>^\<close> and \<open>$\<close> and has no flag) are kept as data and matched by derivatives.
\<close>

datatype rx =
    Nomatch
  | Empty
  | Cls "cu \<Rightarrow> bool"
  | Seq rx rx
  | Alt rx rx
  | Star rx

fun nullable :: "rx \<Rightarrow> bool" where
  "nullable Nomatch = False"
| "nullable Empty = True"
| "nullable (Cls p) = False"
| "nullable (Seq r s) = (nullable r \<and> nullable s)"
| "nullable (Alt r s) = (nullable r \<or> nullable s)"
| "nullable (Star r) = True"

fun deriv :: "cu \<Rightarrow> rx \<Rightarrow> rx" where
  "deriv c Nomatch = Nomatch"
| "deriv c Empty = Nomatch"
| "deriv c (Cls p) = (if p c then Empty else Nomatch)"
| "deriv c (Seq r s) =
     (if nullable r then Alt (Seq (deriv c r) s) (deriv c s) else Seq (deriv c r) s)"
| "deriv c (Alt r s) = Alt (deriv c r) (deriv c s)"
| "deriv c (Star r) = Seq (deriv c r) (Star r)"

text \<open>\<open>/^r$/.test(s)\<close>\<close>

fun test :: "rx \<Rightarrow> jsstring \<Rightarrow> bool" where
  "test r [] = nullable r"
| "test r (c # cs) = test (deriv c r) cs"

text \<open>Pattern syntax: a literal character, a range, \<open>r?\<close>, \<open>r+\<close>, \<open>r{n}\<close>.\<close>

definition Chr :: "cu \<Rightarrow> rx" where
  "Chr a = Cls (\<lambda>c. c = a)"

definition Range :: "cu \<Rightarrow> cu \<Rightarrow> rx" where
  "Range a b = Cls (\<lambda>c. a \<le> c \<and> c \<le> b)"

definition Opt :: "rx \<Rightarrow> rx" where
  "Opt r = Alt r Empty"

definition Plus :: "rx \<Rightarrow> rx" where
  "Plus r = Seq r (Star r)"

fun Times :: "nat \<Rightarrow> rx \<Rightarrow> rx" where
  "Times 0 r = Empty"
| "Times (Suc n) r = Seq r (Times n r)"

text \<open>The words a pattern denotes.\<close>

inductive accepts :: "rx \<Rightarrow> jsstring \<Rightarrow> bool" where
  acc_Empty: "accepts Empty []"
| acc_Cls: "p c \<Longrightarrow> accepts (Cls p) [c]"
| acc_Seq: "accepts r u \<Longrightarrow> accepts s v \<Longrightarrow> accepts (Seq r s) (u @ v)"
| acc_AltL: "accepts r u \<Longrightarrow> accepts (Alt r s) u"
| acc_AltR: "accepts s u \<Longrightarrow> accepts (Alt r s) u"
| acc_StarNil: "accepts (Star r) []"
| acc_StarStep: "accepts r u \<Longrightarrow> accepts (Star r) v \<Longrightarrow> accepts (Star r) (u @ v)"

section \<open>The runtime's date arithmetic\<close>

text \<open>
  \<open>Date.UTC\<close> and the \<open>getUTC...\<close> accessors, after ECMA-262 (Time Values and Time
  Range, Day Number and Time within Day, Year Number, Month Number, Date Number,
  MakeDay, MakeDate, MakeFullYear, TimeClip). All the numbers involved are integers
  far below \<open>2^53\<close>, so the doubles of the runtime are modelled by \<open>int\<close>; a time value
  is \<open>None\<close> when the runtime's is \<open>NaN\<close>.
\<close>

definition msPerDay :: int where
  "msPerDay = 86400000"

definition Day :: "int \<Rightarrow> int" where
  "Day t = t div msPerDay"

definition DaysInYear :: "int \<Rightarrow> int" where
  "DaysInYear y =
     (if y mod 4 \<noteq> 0 then 365
      else if y mod 100 \<noteq> 0 then 366
      else if y mod 400 \<noteq> 0 then 365
      else 366)"

definition DayFromYear :: "int \<Rightarrow> int" where
  "DayFromYear y =
     365 * (y - 1970) + (y - 1969) div 4 - (y - 1901) div 100 + (y - 1601) div 400"

definition TimeFromYear :: "int \<Rightarrow> int" where
  "TimeFromYear y = msPerDay * DayFromYear y"

text \<open>Consecutive years are \<open>DaysInYear\<close> days apart.\<close>

lemma div_succ:
  assumes "(0::int) < k"
  shows "(a + 1) div k = a div k + (if (a + 1) mod k = 0 then 1 else 0)"
proof -
  define q r where "q = a div k" and "r = a mod k"
  have a: "a = k * q + r" and r: "0 \<le> r" "r < k"
    using assms by (simp_all add: q_def r_def)
  show ?thesis
  proof (cases "r + 1 = k")
    case True
    then have e: "a + 1 = k * (q + 1) + 0" using a by (simp add: algebra_simps)
    have "(a + 1) div k = q + 1" using assms by (intro int_div_pos_eq [OF e]) simp_all
    moreover have "(a + 1) mod k = 0" using assms by (intro int_mod_pos_eq [OF e]) simp_all
    ultimately show ?thesis by (simp add: q_def)
  next
    case False
    then have lt: "r + 1 < k" using r by simp
    have e: "a + 1 = k * q + (r + 1)" using a by simp
    have "(a + 1) div k = q" using r lt by (intro int_div_pos_eq [OF e]) simp_all
    moreover have "(a + 1) mod k = r + 1" using r lt by (intro int_mod_pos_eq [OF e]) simp_all
    ultimately show ?thesis using r by (simp add: q_def)
  qed
qed

lemma mod4_shift: "(y - 1969 + 1) mod 4 = 0 \<longleftrightarrow> (y::int) mod 4 = 0"
  using mod_mult_self1 [of y "- 492" 4] by simp

lemma mod100_shift: "(y - 1901 + 1) mod 100 = 0 \<longleftrightarrow> (y::int) mod 100 = 0"
  using mod_mult_self1 [of y "- 19" 100] by simp

lemma mod400_shift: "(y - 1601 + 1) mod 400 = 0 \<longleftrightarrow> (y::int) mod 400 = 0"
  using mod_mult_self1 [of y "- 4" 400] by simp

lemma mod100_mod4: "(y::int) mod 100 = 0 \<Longrightarrow> y mod 4 = 0"
  using dvd_trans [of 4 100 y] by (simp add: mod_eq_0_iff_dvd)

lemma mod400_mod100: "(y::int) mod 400 = 0 \<Longrightarrow> y mod 100 = 0"
  using dvd_trans [of 100 400 y] by (simp add: mod_eq_0_iff_dvd)

lemma DayFromYear_Suc: "DayFromYear (y + 1) = DayFromYear y + DaysInYear y"
proof -
  define p4 p100 p400
    where "p4 \<longleftrightarrow> y mod 4 = 0" and "p100 \<longleftrightarrow> y mod 100 = 0" and "p400 \<longleftrightarrow> y mod 400 = 0"
  define a b c
    where "a = (y - 1969) div 4" and "b = (y - 1901) div 100" and "c = (y - 1601) div 400"
  define a' b' c'
    where "a' = (y - 1968) div 4" and "b' = (y - 1900) div 100" and "c' = (y - 1600) div 400"
  have d4: "a' = a + (if p4 then 1 else 0)"
    using div_succ [of 4 "y - 1969"] mod4_shift [of y] by (simp add: a_def a'_def p4_def)
  have d100: "b' = b + (if p100 then 1 else 0)"
    using div_succ [of 100 "y - 1901"] mod100_shift [of y] by (simp add: b_def b'_def p100_def)
  have d400: "c' = c + (if p400 then 1 else 0)"
    using div_succ [of 400 "y - 1601"] mod400_shift [of y] by (simp add: c_def c'_def p400_def)
  have i1: "p100 \<Longrightarrow> p4" and i2: "p400 \<Longrightarrow> p100"
    using mod100_mod4 [of y] mod400_mod100 [of y] by (simp_all add: p4_def p100_def p400_def)
  have l: "DayFromYear (y + 1) = 365 * (y - 1969) + a' - b' + c'"
    by (simp add: DayFromYear_def a'_def b'_def c'_def)
  have r: "DayFromYear y = 365 * (y - 1970) + a - b + c"
    by (simp add: DayFromYear_def a_def b_def c_def)
  have n: "DaysInYear y =
      (if \<not> p4 then 365 else if \<not> p100 then 366 else if \<not> p400 then 365 else 366)"
    by (simp add: DaysInYear_def p4_def p100_def p400_def)
  show ?thesis
    unfolding l r n d4 d100 d400 using i1 i2 by (cases p4; cases p100; cases p400) simp_all
qed

lemma DaysInYear_cases: "DaysInYear y = 365 \<or> DaysInYear y = 366"
  by (simp add: DaysInYear_def)

lemma TimeFromYear_less_Suc: "TimeFromYear y < TimeFromYear (y + 1)"
  using DaysInYear_cases [of y] by (auto simp: TimeFromYear_def DayFromYear_Suc msPerDay_def)

text \<open>
  \<open>YearFromTime(t)\<close> is the largest \<open>y\<close> with \<open>TimeFromYear(y) \<le> t\<close>. It is computed
  by going up from a year that is not after it: no year has more than 366 days, and
  none has fewer than 365.
\<close>

function yearSearch :: "int \<Rightarrow> int \<Rightarrow> int" where
  "yearSearch y t = (if TimeFromYear (y + 1) \<le> t then yearSearch (y + 1) t else y)"
  by pat_completeness auto
termination
proof (relation "measure (\<lambda>(y, t). nat (t - TimeFromYear y))")
  show "wf (measure (\<lambda>(y, t). nat (t - TimeFromYear y)))" by simp
next
  fix y t :: int
  assume "TimeFromYear (y + 1) \<le> t"
  then show "((y + 1, t), (y, t)) \<in> measure (\<lambda>(y, t). nat (t - TimeFromYear y))"
    using TimeFromYear_less_Suc [of y] by simp
qed

declare yearSearch.simps [simp del]

definition YearFromTime :: "int \<Rightarrow> int" where
  "YearFromTime t =
     yearSearch (1970 + (if 0 \<le> Day t then Day t div 366 else Day t div 365)) t"

definition InLeapYear :: "int \<Rightarrow> int" where
  "InLeapYear t = (if DaysInYear (YearFromTime t) = 366 then 1 else 0)"

definition DayWithinYear :: "int \<Rightarrow> int" where
  "DayWithinYear t = Day t - DayFromYear (YearFromTime t)"

definition monthOfDay :: "int \<Rightarrow> int \<Rightarrow> int" where
  "monthOfDay d l =
     (if d < 31 then 0
      else if d < 59 + l then 1
      else if d < 90 + l then 2
      else if d < 120 + l then 3
      else if d < 151 + l then 4
      else if d < 181 + l then 5
      else if d < 212 + l then 6
      else if d < 243 + l then 7
      else if d < 273 + l then 8
      else if d < 304 + l then 9
      else if d < 334 + l then 10
      else 11)"

definition MonthFromTime :: "int \<Rightarrow> int" where
  "MonthFromTime t = monthOfDay (DayWithinYear t) (InLeapYear t)"

definition dateOfDay :: "int \<Rightarrow> int \<Rightarrow> int \<Rightarrow> int" where
  "dateOfDay m d l =
     (if m = 0 then d + 1
      else if m = 1 then d - 30
      else if m = 2 then d - 58 - l
      else if m = 3 then d - 89 - l
      else if m = 4 then d - 119 - l
      else if m = 5 then d - 150 - l
      else if m = 6 then d - 180 - l
      else if m = 7 then d - 211 - l
      else if m = 8 then d - 242 - l
      else if m = 9 then d - 272 - l
      else if m = 10 then d - 303 - l
      else d - 333 - l)"

definition DateFromTime :: "int \<Rightarrow> int" where
  "DateFromTime t = dateOfDay (MonthFromTime t) (DayWithinYear t) (InLeapYear t)"

text \<open>
  \<open>MakeDay(year, month, date)\<close>: the day number of the first day of month
  \<open>month mod 12\<close> of year \<open>year + floor(month / 12)\<close>, plus \<open>date - 1\<close>.
\<close>

definition daysBeforeMonth :: "int \<Rightarrow> int \<Rightarrow> int" where
  "daysBeforeMonth mn l =
     (if mn = 0 then 0
      else if mn = 1 then 31
      else if mn = 2 then 59 + l
      else if mn = 3 then 90 + l
      else if mn = 4 then 120 + l
      else if mn = 5 then 151 + l
      else if mn = 6 then 181 + l
      else if mn = 7 then 212 + l
      else if mn = 8 then 243 + l
      else if mn = 9 then 273 + l
      else if mn = 10 then 304 + l
      else 334 + l)"

definition MakeDay :: "int \<Rightarrow> int \<Rightarrow> int \<Rightarrow> int" where
  "MakeDay year month date =
     (let ym = year + month div 12;
          mn = month mod 12;
          l = (if DaysInYear ym = 366 then 1 else 0)
      in DayFromYear ym + daysBeforeMonth mn l + date - 1)"

definition MakeDate :: "int \<Rightarrow> int \<Rightarrow> int" where
  "MakeDate day time = day * msPerDay + time"

definition MakeFullYear :: "int \<Rightarrow> int" where
  "MakeFullYear y = (if 0 \<le> y \<and> y \<le> 99 then 1900 + y else y)"

definition TimeClip :: "int \<Rightarrow> int option" where
  "TimeClip t = (if \<bar>t\<bar> > 8640000000000000 then None else Some t)"

text \<open>\<open>Date.UTC(year, month, date)\<close>; hours, minutes, seconds and milliseconds are 0.\<close>

definition Date_UTC :: "int \<Rightarrow> int \<Rightarrow> int \<Rightarrow> int option" where
  "Date_UTC year month date =
     TimeClip (MakeDate (MakeDay (MakeFullYear year) month date) 0)"

definition getUTCFullYear :: "int option \<Rightarrow> int option" where
  "getUTCFullYear tv = map_option YearFromTime tv"

definition getUTCMonth :: "int option \<Rightarrow> int option" where
  "getUTCMonth tv = map_option MonthFromTime tv"

definition getUTCDate :: "int option \<Rightarrow> int option" where
  "getUTCDate tv = map_option DateFromTime tv"

section \<open>The Event model\<close>

subsection \<open>Slug candidates\<close>

text \<open>\<open>.replace(/[^\w\s-]/g, '')\<close>\<close>

definition removeSpecial :: "jsstring \<Rightarrow> jsstring" where
  "removeSpecial s = filter (\<lambda>c. isWord c \<or> isSpace c \<or> c = HYPHEN) s"

text \<open>
  \<open>.replace(/p+/g, '-')\<close> for a character class \<open>p\<close>: from left to right, every
  maximal run of characters of \<open>p\<close> becomes one hyphen.
\<close>

function replaceRuns :: "(cu \<Rightarrow> bool) \<Rightarrow> jsstring \<Rightarrow> jsstring" where
  "replaceRuns p [] = []"
| "replaceRuns p (c # cs) =
     (if p c then HYPHEN # replaceRuns p (dropWhile p cs) else c # replaceRuns p cs)"
  by pat_completeness auto
termination
  by (relation "measure (\<lambda>(p, s). length s)")
     (auto simp: less_Suc_eq_le length_dropWhile_le)

text \<open>\<open>.replace(/\s+/g, '-')\<close> and \<open>.replace(/-+/g, '-')\<close>\<close>

definition spacesToHyphens :: "jsstring \<Rightarrow> jsstring" where
  "spacesToHyphens s = replaceRuns isSpace s"

definition squeezeHyphens :: "jsstring \<Rightarrow> jsstring" where
  "squeezeHyphens s = replaceRuns (\<lambda>c. c = HYPHEN) s"

text \<open>
  \<open>.replace(/^-+|-+$/g, '')\<close>: the hyphens at the start and the hyphens at the end
  are removed (a string of hyphens only is matched whole by the first alternative).
\<close>

definition stripHyphens :: "jsstring \<Rightarrow> jsstring" where
  "stripHyphens s =
     rev (dropWhile (\<lambda>c. c = HYPHEN) (rev (dropWhile (\<lambda>c. c = HYPHEN) s)))"

text \<open>The constant \<open>base\<close> of the hook.\<close>

definition slugBase :: "jsstring \<Rightarrow> jsstring" where
  "slugBase title =
     stripHyphens (squeezeHyphens (spacesToHyphens (removeSpecial (trim (toLowerCase title)))))"

text \<open>
  \<open>Math.random\<close> is a stream of draws: \<open>rnd k\<close> stands for the value of
  \<open>Math.floor(Math.random() * alphabet.length)\<close> at the \<open>k\<close>-th call, an index below
  36, which the model enforces by reducing it modulo the length of the alphabet.
  \<open>generateShortId\<close> makes six draws, starting at draw number \<open>pos\<close>.
\<close>

type_synonym random = "nat \<Rightarrow> nat"

definition generateShortId :: "random \<Rightarrow> nat \<Rightarrow> jsstring \<times> nat" where
  "generateShortId rnd pos =
     (map (\<lambda>k. alphabet ! (rnd (pos + k) mod length alphabet)) [0..<6], pos + 6)"

text \<open>
  The Event collection, as far as the hook reads it: the identity and the slug of
  every stored record. \<open>findOne({slug: candidate, _id: {$ne: this._id}})\<close> gives the
  first record with that slug and another identity, or \<open>null\<close>.
\<close>

type_synonym event_store = "(nat \<times> jsstring) list"

definition findOne :: "event_store \<Rightarrow> jsstring \<Rightarrow> nat \<Rightarrow> (nat \<times> jsstring) option" where
  "findOne store candidate self = find (\<lambda>(i, s). s = candidate \<and> i \<noteq> self) store"

text \<open>
  What the hook reads from outside the record: the collection, the random draws and
  \<open>Date.now()\<close>, the milliseconds since the epoch.
\<close>

record env =
  store :: event_store
  random :: random
  now :: nat

text \<open>
  The state of a slug derivation: the variables \<open>candidate\<close> and \<open>exists\<close>, the
  number of draws made and the number of \<open>findOne\<close> queries issued.
\<close>

record slug_state =
  candidate :: jsstring
  exists :: "(nat \<times> jsstring) option"
  draws :: nat
  reads :: nat

text \<open>The loop \<open>for (let attempts = 0; attempts < 3; attempts++)\<close> with its \<open>break\<close>.\<close>

function retryLoop :: "env \<Rightarrow> nat \<Rightarrow> jsstring \<Rightarrow> nat \<Rightarrow> slug_state \<Rightarrow> slug_state" where
  "retryLoop e self base attempts st =
     (if attempts < 3 then
        (let (sid, pos) = generateShortId (random e) (draws st);
             cand = base @ [HYPHEN] @ sid;
             st' = \<lparr>candidate = cand, exists = findOne (store e) cand self,
                    draws = pos, reads = reads st + 1\<rparr>
         in if exists st' = None then st' else retryLoop e self base (attempts + 1) st')
      else st)"
  by pat_completeness auto
termination
  by (relation "measure (\<lambda>(e, self, base, attempts, st). 3 - attempts)") auto

declare retryLoop.simps [simp del]

text \<open>Lines 121 to 163: from the title to the winning candidate.\<close>

definition deriveSlug :: "env \<Rightarrow> nat \<Rightarrow> jsstring \<Rightarrow> slug_state" where
  "deriveSlug e self title =
     (let base = slugBase title;
          cand = (if base = [] then str ''untitled'' else base);
          st = \<lparr>candidate = cand, exists = findOne (store e) cand self,
                draws = 0, reads = 1\<rparr>
      in if exists st \<noteq> None then
           (let st1 = retryLoop e self base 0 st
            in if exists st1 \<noteq> None then
                 (let timestamp = numToString 36 (now e);
                      (sid, pos) = generateShortId (random e) (draws st1)
                  in st1\<lparr>candidate := base @ [HYPHEN] @ timestamp @ sid, draws := pos\<rparr>)
               else st1)
         else st)"

subsection \<open>Date and time\<close>

text \<open>An error thrown by a hook, with its message.\<close>

datatype error = Error string | TypeError string

text \<open>\<open>/^(\d{4})-(\d{2})-(\d{2})$/\<close>\<close>

definition dateRegex :: rx where
  "dateRegex =
     Seq (Times 4 (Cls isDigit))
       (Seq (Chr HYPHEN) (Seq (Times 2 (Cls isDigit))
         (Seq (Chr HYPHEN) (Times 2 (Cls isDigit)))))"

text \<open>
  Lines 170 to 195. A field value is \<open>None\<close> when it is not a string. The three
  groups of the pattern have fixed widths, so \<open>m[1]\<close>, \<open>m[2]\<close> and \<open>m[3]\<close> are the
  characters 0 to 3, 5 to 6 and 8 to 9 of a matching string. A comparison with
  \<open>!==\<close> holds whenever the accessor gives \<open>NaN\<close>.
\<close>

definition normalizeDate :: "jsstring option \<Rightarrow> error + jsstring" where
  "normalizeDate v =
     (case v of
        None \<Rightarrow> Inl (Error ''Date must be a string in YYYY-MM-DD format'')
      | Some s \<Rightarrow>
          if \<not> test dateRegex s then Inl (Error ''Date must be in YYYY-MM-DD format'')
          else
            (let yyyy = parseInt (take 4 s);
                 mm = parseInt (take 2 (drop 5 s));
                 dd = parseInt (take 2 (drop 8 s));
                 utc = Date_UTC (int yyyy) (int mm - 1) (int dd)
             in if getUTCFullYear utc \<noteq> Some (int yyyy)
                   \<or> map_option (\<lambda>m. m + 1) (getUTCMonth utc) \<noteq> Some (int mm)
                   \<or> getUTCDate utc \<noteq> Some (int dd)
                then Inl (Error ''Invalid date components'')
                else
                  (let mmStr = padStart0 2 (String mm);
                       ddStr = padStart0 2 (String dd)
                   in Inr (String yyyy @ [HYPHEN] @ mmStr @ [HYPHEN] @ ddStr))))"

text \<open>\<open>/^([0-1]?[0-9]|2[0-3]):([0-5][0-9])$/\<close>\<close>

definition timeRegex :: rx where
  "timeRegex =
     Seq (Alt (Seq (Opt (Range 0x30 0x31)) (Range 0x30 0x39))
              (Seq (Chr 0x32) (Range 0x30 0x33)))
       (Seq (Chr COLON) (Seq (Range 0x30 0x35) (Range 0x30 0x39)))"

text \<open>\<open>s.split(sep)\<close> for a separator of one character.\<close>

fun split :: "cu \<Rightarrow> jsstring \<Rightarrow> jsstring list" where
  "split sep [] = [[]]"
| "split sep (c # cs) =
     (if c = sep then [] # split sep cs
      else (case split sep cs of
              [] \<Rightarrow> [[c]]
            | p # ps \<Rightarrow> (c # p) # ps))"

text \<open>
  Lines 200 to 206. \<open>test\<close> converts a value that is not a string to \<open>'undefined'\<close>
  or \<open>'null'\<close>, which the pattern does not match. The destructuring takes the first
  two pieces of the split; calling \<open>padStart\<close> on a missing piece throws a TypeError.
\<close>

definition normalizeTime :: "jsstring option \<Rightarrow> error + jsstring" where
  "normalizeTime v =
     (case v of
        None \<Rightarrow> Inl (Error ''Time must be in HH:MM format'')
      | Some s \<Rightarrow>
          if \<not> test timeRegex s then Inl (Error ''Time must be in HH:MM format'')
          else
            (case split COLON s of
               hours # minutes # rest \<Rightarrow>
                 Inr (padStart0 2 hours @ [COLON] @ padStart0 2 minutes)
             | _ \<Rightarrow> Inl (TypeError ''Cannot read properties of undefined'')))"

subsection \<open>The pre-validate hook\<close>

datatype path = Title | Date | Time

text \<open>
  An Event document as the hook sees it: its identity, the fields the hook touches
  (\<open>None\<close> when the field holds no string), and the change tracking of the
  persistence library.
\<close>

record event_doc =
  oid :: nat
  title :: "jsstring option"
  slug :: "jsstring option"
  date :: "jsstring option"
  time :: "jsstring option"
  isNew :: bool
  isModified :: "path \<Rightarrow> bool"

text \<open>
  The schema declares \<open>slug\<close> with \<open>lowercase: true\<close> and \<open>trim: true\<close>: the library
  trims and lower-cases a string assigned to the field.
\<close>

definition setSlug :: "jsstring \<Rightarrow> jsstring" where
  "setSlug v = toLowerCase (trim v)"

text \<open>\<open>!this.slug\<close>: no string, or the empty string.\<close>

definition falsy :: "jsstring option \<Rightarrow> bool" where
  "falsy v = (v = None \<or> v = Some [])"

text \<open>
  What a run of the hook leaves behind: the document, the error it threw if any,
  and the number of collision queries and of random draws it made.
\<close>

record hook_result =
  doc :: event_doc
  thrown :: "error option"
  queries :: nat
  drawn :: nat

text \<open>Lines 120 to 166. Reading \<open>this.title.toLowerCase\<close> without a title throws.\<close>

definition slugStage :: "env \<Rightarrow> hook_result \<Rightarrow> hook_result" where
  "slugStage e h =
     (let d = doc h in
      if (isNew d \<and> falsy (slug d)) \<or> isModified d Title then
        (case title d of
           None \<Rightarrow> h\<lparr>thrown := Some (TypeError ''Cannot read properties of undefined'')\<rparr>
         | Some t \<Rightarrow>
             (let st = deriveSlug e (oid d) t
              in h\<lparr>doc := d\<lparr>slug := Some (setSlug (candidate st))\<rparr>,
                   queries := queries h + reads st,
                   drawn := drawn h + draws st\<rparr>))
      else h)"

text \<open>Lines 169 to 196.\<close>

definition dateStage :: "hook_result \<Rightarrow> hook_result" where
  "dateStage h =
     (let d = doc h in
      if isModified d Date then
        (case normalizeDate (date d) of
           Inl err \<Rightarrow> h\<lparr>thrown := Some err\<rparr>
         | Inr v \<Rightarrow> h\<lparr>doc := d\<lparr>date := Some v\<rparr>\<rparr>)
      else h)"

text \<open>Lines 199 to 207.\<close>

definition timeStage :: "hook_result \<Rightarrow> hook_result" where
  "timeStage h =
     (let d = doc h in
      if isModified d Time then
        (case normalizeTime (time d) of
           Inl err \<Rightarrow> h\<lparr>thrown := Some err\<rparr>
         | Inr v \<Rightarrow> h\<lparr>doc := d\<lparr>time := Some v\<rparr>\<rparr>)
      else h)"

text \<open>The three parts run in order; an error ends the hook and aborts the save.\<close>

definition andThen :: "hook_result \<Rightarrow> (hook_result \<Rightarrow> hook_result) \<Rightarrow> hook_result" where
  "andThen h f = (if thrown h = None then f h else h)"

definition preValidate :: "env \<Rightarrow> event_doc \<Rightarrow> hook_result" where
  "preValidate e d =
     andThen (andThen (slugStage e \<lparr>doc = d, thrown = None, queries = 0, drawn = 0\<rparr>)
                dateStage)
       timeStage"

subsection \<open>The mode field\<close>

text \<open>
  The schema declares \<open>mode\<close> as required, with \<open>lowercase: true\<close> and the enumeration
  \<open>['online', 'offline', 'hybrid']\<close>: the library lower-cases the value when it is
  assigned, and validation checks the stored value.
\<close>

definition setMode :: "jsstring \<Rightarrow> jsstring" where
  "setMode v = toLowerCase v"

definition modeEnum :: "jsstring list" where
  "modeEnum = [str ''online'', str ''offline'', str ''hybrid'']"

definition validMode :: "jsstring \<Rightarrow> bool" where
  "validMode v = (v \<noteq> [] \<and> v \<in> set modeEnum)"

section \<open>The Booking model\<close>

text \<open>\<open>/^[^\s@]+@[^\s@]+\.[^\s@]+$/\<close>\<close>

definition notSpaceAt :: "cu \<Rightarrow> bool" where
  "notSpaceAt c = (\<not> isSpace c \<and> c \<noteq> AT)"

definition emailRegex :: rx where
  "emailRegex =
     Seq (Plus (Cls notSpaceAt))
       (Seq (Chr AT) (Seq (Plus (Cls notSpaceAt))
         (Seq (Chr DOT) (Plus (Cls notSpaceAt)))))"

text \<open>
  The schema declares \<open>email\<close> as required, with \<open>lowercase: true\<close>, \<open>trim: true\<close> and
  the validator of lines 24 to 27: the library trims and lower-cases the value when
  it is assigned, and validation checks the stored value. An e-mail address may
  hold any character, so the lower-casing is the one of the runtime, whatever its
  Unicode tables are: \<open>lc\<close> stands for \<open>String.prototype.toLowerCase\<close>.
\<close>

definition setEmail :: "(jsstring \<Rightarrow> jsstring) \<Rightarrow> jsstring \<Rightarrow> jsstring" where
  "setEmail lc v = lc (trim v)"

definition emailValidator :: "jsstring \<Rightarrow> bool" where
  "emailValidator v = test emailRegex v"

definition validEmail :: "jsstring \<Rightarrow> bool" where
  "validEmail v = (v \<noteq> [] \<and> emailValidator v)"

text \<open>
  A Booking document as the pre-save hook sees it, and the identities of the
  records of the Event collection.
\<close>

record booking_doc =
  eventId :: nat
  email :: jsstring
  eventIdModified :: bool

record save_result =
  failure :: "error option"
  lookups :: nat

text \<open>Lines 44 to 58; \<open>Event.exists({ _id: this.eventId })\<close> is one read.\<close>

definition eventExists :: "nat list \<Rightarrow> nat \<Rightarrow> bool" where
  "eventExists events i = (i \<in> set events)"

definition preSave :: "nat list \<Rightarrow> booking_doc \<Rightarrow> save_result" where
  "preSave events b =
     (if eventIdModified b then
        (if \<not> eventExists events (eventId b)
         then \<lparr>failure = Some (Error ''Referenced event does not exist''), lookups = 1\<rparr>
         else \<lparr>failure = None, lookups = 1\<rparr>)
      else \<lparr>failure = None, lookups = 0\<rparr>)"

section \<open>The specification's words\<close>

text \<open>
  A time of day "of form H:MM or HH:MM with hour value 0-23 and minute value 00-59
  (minute must be two digits)": the hour and the minute parts.
\<close>

definition specHour :: "jsstring \<Rightarrow> bool" where
  "specHour h = ((length h = 1 \<or> length h = 2) \<and> list_all isDigit h \<and> parseInt h \<le> 23)"

definition specMinute :: "jsstring \<Rightarrow> bool" where
  "specMinute m = (length m = 2 \<and> list_all isDigit m \<and> parseInt m \<le> 59)"

text \<open>
  An e-mail address "of the form local-part@domain with no whitespace": the parts
  between which the pattern of the source puts the \<open>@\<close> and the dot are not empty and
  have no white space and no \<open>@\<close>.
\<close>

definition specPart :: "jsstring \<Rightarrow> bool" where
  "specPart p = (p \<noteq> [] \<and> list_all notSpaceAt p)"

text \<open>
  The form as the specification words it, with nothing said of a dot: a local part
  and a domain, neither empty, around the one \<open>@\<close>, and no white space.
\<close>

definition specEmailForm :: "jsstring \<Rightarrow> bool" where
  "specEmailForm s =
     (case split AT s of
        [l, d] \<Rightarrow> l \<noteq> [] \<and> d \<noteq> [] \<and> list_all (\<lambda>c. \<not> isSpace c) s
      | _ \<Rightarrow> False)"

text \<open>
  A slug "does not collide" when no other record (one with another identity) has
  it as slug.
\<close>

definition collides :: "env \<Rightarrow> nat \<Rightarrow> jsstring \<Rightarrow> bool" where
  "collides e self c = (\<exists>(i, s) \<in> set (store e). s = c \<and> i \<noteq> self)"

text \<open>
  A slug "contains only characters from \<open>[a-z0-9-]\<close>", and the same with the
  underscore, which the filter of the source keeps. A slug has "no run of two or
  more consecutive hyphens". A well-formed slug is not empty, is made of the
  characters of the wider set, and has no hyphen at either end and no two hyphens
  in a row.
\<close>

definition specSlugChar :: "cu \<Rightarrow> bool" where
  "specSlugChar c = (isLower c \<or> isDigit c \<or> c = HYPHEN)"

definition slugChar :: "cu \<Rightarrow> bool" where
  "slugChar c = (isLower c \<or> isDigit c \<or> c = 0x5F \<or> c = HYPHEN)"

fun doubleHyphen :: "jsstring \<Rightarrow> bool" where
  "doubleHyphen (a # b # cs) = ((a = HYPHEN \<and> b = HYPHEN) \<or> doubleHyphen (b # cs))"
| "doubleHyphen cs = False"

definition wellFormedSlug :: "jsstring \<Rightarrow> bool" where
  "wellFormedSlug s =
     (s \<noteq> [] \<and> list_all slugChar s \<and> hd s \<noteq> HYPHEN \<and> last s \<noteq> HYPHEN \<and> \<not> doubleHyphen s)"

text \<open>
  A "real Gregorian calendar date": month 1 to 12, day 1 to the length of the month.
\<close>

definition leapYear :: "nat \<Rightarrow> bool" where
  "leapYear y = (y mod 4 = 0 \<and> (0 < y mod 100 \<or> y mod 400 = 0))"

definition daysInMonth :: "nat \<Rightarrow> nat \<Rightarrow> nat" where
  "daysInMonth y m =
     (if m = 2 then (if leapYear y then 29 else 28)
      else if m = 4 \<or> m = 6 \<or> m = 9 \<or> m = 11 then 30
      else 31)"

definition realDate :: "nat \<Rightarrow> nat \<Rightarrow> nat \<Rightarrow> bool" where
  "realDate y m d = (1 \<le> m \<and> m \<le> 12 \<and> 1 \<le> d \<and> d \<le> daysInMonth y m)"

section \<open>Names for what the code computes\<close>

text \<open>
  The candidates of a slug derivation for title \<open>t\<close>: the base candidate with its
  fallback (line 138); the randomized candidates of line 150, the \<open>k\<close>-th of which
  uses the draws \<open>6k\<close> to \<open>6k + 5\<close>; the timestamp candidate of line 161, which uses
  the draws 18 to 23.
\<close>

definition firstCandidate :: "jsstring \<Rightarrow> jsstring" where
  "firstCandidate t = (if slugBase t = [] then str ''untitled'' else slugBase t)"

definition token :: "env \<Rightarrow> nat \<Rightarrow> jsstring" where
  "token e k = fst (generateShortId (random e) (6 * k))"

definition retryCandidate :: "env \<Rightarrow> jsstring \<Rightarrow> nat \<Rightarrow> jsstring" where
  "retryCandidate e t k = slugBase t @ [HYPHEN] @ token e k"

definition fallbackCandidate :: "env \<Rightarrow> jsstring \<Rightarrow> jsstring" where
  "fallbackCandidate e t = slugBase t @ [HYPHEN] @ numToString 36 (now e) @ token e 3"

text \<open>The hook when it reaches line 199: the slug part, then the date part.\<close>

definition beforeTime :: "env \<Rightarrow> event_doc \<Rightarrow> hook_result" where
  "beforeTime e d =
     andThen (slugStage e \<lparr>doc = d, thrown = None, queries = 0, drawn = 0\<rparr>) dateStage"

text \<open>The characters of the alphabet of \<open>generateShortId\<close>, as a class.\<close>

definition alnum :: "cu \<Rightarrow> bool" where
  "alnum c = (isLower c \<or> isDigit c)"

text \<open>
  The hour and minute parts of a time, by the characters the pattern of line 200
  allows at each place.
\<close>

definition hourChars :: "jsstring \<Rightarrow> bool" where
  "hourChars h \<longleftrightarrow>
     (\<exists>b. h = [b] \<and> isDigit b)
     \<or> (\<exists>a b. h = [a, b] \<and> 0x30 \<le> a \<and> a \<le> 0x31 \<and> isDigit b)
     \<or> (\<exists>b. h = [0x32, b] \<and> 0x30 \<le> b \<and> b \<le> 0x33)"

definition minuteChars :: "jsstring \<Rightarrow> bool" where
  "minuteChars m \<longleftrightarrow> (\<exists>a b. m = [a, b] \<and> 0x30 \<le> a \<and> a \<le> 0x35 \<and> isDigit b)"

text \<open>A string of exactly \<open>n\<close> decimal digits, as \<open>\d{n}\<close> matches.\<close>

definition digits :: "nat \<Rightarrow> jsstring \<Rightarrow> bool" where
  "digits n x = (length x = n \<and> list_all isDigit x)"

text \<open>
  The check of lines 184 to 188 passes: the year, month and day read back from the
  UTC date are the ones it was built from.
\<close>

definition roundTrips :: "nat \<Rightarrow> nat \<Rightarrow> nat \<Rightarrow> bool" where
  "roundTrips y m d =
     (let utc = Date_UTC (int y) (int m - 1) (int d)
      in getUTCFullYear utc = Some (int y)
         \<and> map_option (\<lambda>m. m + 1) (getUTCMonth utc) = Some (int m)
         \<and> getUTCDate utc = Some (int d))"

text \<open>
  The leap day of a year as a number, and the length of the month with index \<open>mn\<close>
  (0 for January) in a year with \<open>l\<close> leap days.
\<close>

definition leapDays :: "int \<Rightarrow> int" where
  "leapDays y = (if DaysInYear y = 366 then 1 else 0)"

definition monthLen :: "int \<Rightarrow> int \<Rightarrow> int" where
  "monthLen mn l =
     (if mn = 1 then 28 + l
      else if mn = 3 \<or> mn = 5 \<or> mn = 8 \<or> mn = 10 then 30
      else 31)"

section \<open>Sample data\<close>

definition sampleEvent :: event_doc where
  "sampleEvent =
     \<lparr>oid = 7, title = Some (str ''My Event''), slug = Some (str ''my-event''),
      date = Some (str ''2024-03-05''), time = Some (str ''9:05''),
      isNew = False, isModified = (\<lambda>p. p \<noteq> Title)\<rparr>"

definition sampleEnv :: env where
  "sampleEnv =
     \<lparr>store = [(1, str ''my-event''), (2, str ''untitled'')],
      random = (\<lambda>k. 7 * k), now = 1700\<rparr>"

definition newEvent :: "jsstring \<Rightarrow> event_doc" where
  "newEvent t =
     \<lparr>oid = 9, title = Some t, slug = None,
      date = Some (str ''2024-03-05''), time = Some (str ''9:05''),
      isNew = True, isModified = (\<lambda>p. True)\<rparr>"

definition crowdedEnv :: env where
  "crowdedEnv =
     \<lparr>store = [(1, str ''my-event''), (2, str ''my-event-000000''),
               (3, str ''my-event-loyw3v28000000'')],
      random = (\<lambda>k. 0), now = 1700000000000\<rparr>"

section \<open>Properties of the string functions and of matching\<close>

lemma str_simps [simp]: "str [] = []" "str (c # cs) = of_char c # str cs"
  by (simp_all add: str_def)

inductive_simps accepts_Nomatch [simp]: "accepts Nomatch w"
inductive_simps accepts_Empty [simp]: "accepts Empty w"
inductive_simps accepts_Cls [simp]: "accepts (Cls p) w"
inductive_simps accepts_Seq: "accepts (Seq r s) w"
inductive_simps accepts_Alt [simp]: "accepts (Alt r s) w"

lemma nullable_accepts: "nullable r \<longleftrightarrow> accepts r []"
  by (induction r) (auto simp: accepts_Seq intro: accepts.intros elim: accepts.cases)

lemma star_cons_split:
  assumes "accepts q w"
  shows "q = Star r \<Longrightarrow> w = c # x \<Longrightarrow>
    \<exists>u v. x = u @ v \<and> accepts r (c # u) \<and> accepts (Star r) v"
  using assms
proof (induction q w rule: accepts.induct)
  case (acc_StarStep r' u v)
  show ?case
  proof (cases u)
    case Nil
    with acc_StarStep show ?thesis by simp
  next
    case (Cons a u')
    with acc_StarStep show ?thesis by auto
  qed
qed simp_all

lemma accepts_Star_Cons:
  "accepts (Star r) (c # x) \<longleftrightarrow>
     (\<exists>u v. x = u @ v \<and> accepts r (c # u) \<and> accepts (Star r) v)"
proof
  assume "accepts (Star r) (c # x)"
  then show "\<exists>u v. x = u @ v \<and> accepts r (c # u) \<and> accepts (Star r) v"
    using star_cons_split by blast
next
  assume "\<exists>u v. x = u @ v \<and> accepts r (c # u) \<and> accepts (Star r) v"
  then obtain u v where "x = u @ v" "accepts r (c # u)" "accepts (Star r) v" by blast
  then show "accepts (Star r) (c # x)"
    using acc_StarStep [of r "c # u" v] by simp
qed

lemma accepts_Seq_Cons:
  "accepts (Seq r s) (c # x) \<longleftrightarrow>
     (accepts r [] \<and> accepts s (c # x))
     \<or> (\<exists>u v. x = u @ v \<and> accepts r (c # u) \<and> accepts s v)"
  by (auto simp: accepts_Seq Cons_eq_append_conv)

lemma deriv_accepts: "accepts (deriv c r) w \<longleftrightarrow> accepts r (c # w)"
proof (induction r arbitrary: w)
  case (Seq r s)
  then show ?case
    by (simp add: accepts_Seq_Cons nullable_accepts) (auto simp: accepts_Seq)
next
  case (Star r)
  then show ?case by (simp add: accepts_Star_Cons accepts_Seq)
qed auto

text \<open>Matching by derivatives decides membership in the language of the pattern.\<close>

lemma test_accepts: "test r w \<longleftrightarrow> accepts r w"
  by (induction w arbitrary: r) (simp_all add: nullable_accepts deriv_accepts)

lemma accepts_Seq_Cls: "accepts (Seq (Cls p) r) w \<longleftrightarrow> (\<exists>c w'. w = c # w' \<and> p c \<and> accepts r w')"
proof
  assume "accepts (Seq (Cls p) r) w"
  then show "\<exists>c w'. w = c # w' \<and> p c \<and> accepts r w'"
    by (auto simp: accepts_Seq)
next
  assume "\<exists>c w'. w = c # w' \<and> p c \<and> accepts r w'"
  then obtain c w' where "w = c # w'" "p c" "accepts r w'" by blast
  then show "accepts (Seq (Cls p) r) w"
    using acc_Seq [of "Cls p" "[c]" r w'] by simp
qed

lemma accepts_Seq_Empty: "accepts (Seq Empty r) w \<longleftrightarrow> accepts r w"
  by (simp add: accepts_Seq)

lemma accepts_Seq_Alt: "accepts (Seq (Alt a b) r) w \<longleftrightarrow> accepts (Seq a r) w \<or> accepts (Seq b r) w"
  by (auto simp: accepts_Seq)

lemma accepts_Seq_assoc: "accepts (Seq (Seq a b) r) w \<longleftrightarrow> accepts (Seq a (Seq b r)) w"
  by (simp add: accepts_Seq) (metis append.assoc)

lemmas rx_unfold = accepts_Seq_Cls accepts_Seq_Empty accepts_Seq_Alt accepts_Seq_assoc
  Chr_def Range_def Opt_def

lemma accepts_Star_Cls: "accepts (Star (Cls p)) w \<longleftrightarrow> list_all p w"
proof (induction w)
  case Nil
  show ?case by (simp add: acc_StarNil)
next
  case (Cons c w)
  show ?case by (auto simp: accepts_Star_Cons Cons)
qed

lemma accepts_Plus_Cls: "accepts (Plus (Cls p)) w \<longleftrightarrow> w \<noteq> [] \<and> list_all p w"
  by (cases w) (auto simp: Plus_def accepts_Seq_Cls accepts_Star_Cls)

lemma accepts_Times_Cls: "accepts (Times n (Cls p)) w \<longleftrightarrow> length w = n \<and> list_all p w"
proof (induction n arbitrary: w)
  case 0
  show ?case by auto
next
  case (Suc n)
  show ?case by (cases w) (auto simp: accepts_Seq_Cls Suc)
qed

section \<open>The Booking hook\<close>

text \<open>
  C4. On a Booking save the existence lookup is issued exactly when \<open>eventId\<close> is
  modified. When it is issued and no Event has the booking's \<open>eventId\<close> as identity,
  the save is aborted with the message "Referenced event does not exist"; when such
  an Event exists the save proceeds; when \<open>eventId\<close> is untouched no read is issued
  and the save proceeds.
\<close>

theorem booking_reference_check:
  "lookups (preSave events b) = (if eventIdModified b then 1 else 0) \<and>
   failure (preSave events b) =
     (if eventIdModified b \<and> eventId b \<notin> set events
      then Some (Error ''Referenced event does not exist'') else None)"
  by (simp add: preSave_def eventExists_def)

theorem booking_reference_check_witness:
  "preSave [1, 2] \<lparr>eventId = 3, email = str ''a@b.co'', eventIdModified = True\<rparr>
     = \<lparr>failure = Some (Error ''Referenced event does not exist''), lookups = 1\<rparr> \<and>
   preSave [1, 2, 3] \<lparr>eventId = 3, email = str ''a@b.co'', eventIdModified = True\<rparr>
     = \<lparr>failure = None, lookups = 1\<rparr> \<and>
   preSave [1, 2] \<lparr>eventId = 3, email = str ''c@d.co'', eventIdModified = False\<rparr>
     = \<lparr>failure = None, lookups = 0\<rparr>"
  using
    booking_reference_check
      [of "[1, 2]" "\<lparr>eventId = 3, email = str ''a@b.co'', eventIdModified = True\<rparr>"]
    booking_reference_check
      [of "[1, 2, 3]" "\<lparr>eventId = 3, email = str ''a@b.co'', eventIdModified = True\<rparr>"]
    booking_reference_check
      [of "[1, 2]" "\<lparr>eventId = 3, email = str ''c@d.co'', eventIdModified = False\<rparr>"]
  by (simp add: save_result.equality)

section \<open>The Event hook: what the parts leave alone\<close>

lemma slugStage_skip:
  "\<not> isModified (doc h) Title \<Longrightarrow> \<not> (isNew (doc h) \<and> falsy (slug (doc h))) \<Longrightarrow>
   slugStage e h = h"
  by (auto simp: slugStage_def Let_def)

lemma dateStage_frame:
  "slug (doc (dateStage h)) = slug (doc h) \<and> queries (dateStage h) = queries h
   \<and> drawn (dateStage h) = drawn h"
  by (simp add: dateStage_def Let_def split: sum.splits)

lemma timeStage_frame:
  "slug (doc (timeStage h)) = slug (doc h) \<and> queries (timeStage h) = queries h
   \<and> drawn (timeStage h) = drawn h"
  by (simp add: timeStage_def Let_def split: sum.splits)

lemma preValidate_frame:
  "slug (doc (preValidate e d))
     = slug (doc (slugStage e \<lparr>doc = d, thrown = None, queries = 0, drawn = 0\<rparr>))
   \<and> queries (preValidate e d)
     = queries (slugStage e \<lparr>doc = d, thrown = None, queries = 0, drawn = 0\<rparr>)
   \<and> drawn (preValidate e d)
     = drawn (slugStage e \<lparr>doc = d, thrown = None, queries = 0, drawn = 0\<rparr>)"
  by (simp add: preValidate_def andThen_def dateStage_frame timeStage_frame)

text \<open>
  C6. When the title is not modified and the record is not a new record without a
  slug, the hook leaves the slug as it was, whatever else it does and whether or
  not it throws, and it issues no collision query.
\<close>

theorem slug_kept:
  assumes "\<not> isModified d Title" and "\<not> (isNew d \<and> falsy (slug d))"
  shows "slug (doc (preValidate e d)) = slug d \<and> queries (preValidate e d) = 0"
  using assms by (simp add: preValidate_frame slugStage_skip)

theorem slug_kept_witness:
  "\<not> isModified sampleEvent Title \<and> \<not> (isNew sampleEvent \<and> falsy (slug sampleEvent))
   \<and> slug (doc (preValidate sampleEnv sampleEvent)) = Some (str ''my-event'')
   \<and> queries (preValidate sampleEnv sampleEvent) = 0"
proof -
  have a: "\<not> isModified sampleEvent Title"
    by (simp add: sampleEvent_def)
  have b: "\<not> (isNew sampleEvent \<and> falsy (slug sampleEvent))"
    by (simp add: sampleEvent_def)
  have c: "slug sampleEvent = Some (str ''my-event'')"
    by (simp add: sampleEvent_def)
  show ?thesis
    using slug_kept [OF a b, of sampleEnv] a b c by simp
qed

text \<open>
  A run of the whole hook on a record whose date and time are modified: the time
  \<open>9:05\<close> is stored as \<open>09:05\<close>. With the date \<open>2024-02-30\<close> the hook throws at the
  date, and the time is left as it was.
\<close>

lemma hook_example:
  "thrown (preValidate sampleEnv sampleEvent) = None
   \<and> slug (doc (preValidate sampleEnv sampleEvent)) = Some (str ''my-event'')
   \<and> date (doc (preValidate sampleEnv sampleEvent)) = Some (str ''2024-03-05'')
   \<and> time (doc (preValidate sampleEnv sampleEvent)) = Some (str ''09:05'')"
  by code_simp

lemma hook_abort_example:
  "thrown (preValidate sampleEnv (sampleEvent\<lparr>date := Some (str ''2024-02-30'')\<rparr>))
     = Some (Error ''Invalid date components'')
   \<and> time (doc (preValidate sampleEnv (sampleEvent\<lparr>date := Some (str ''2024-02-30'')\<rparr>)))
     = Some (str ''9:05'')"
  by code_simp

section \<open>The mode field is case-insensitive\<close>

lemma modeEnum_member:
  "v \<in> set modeEnum \<longleftrightarrow> v = str ''online'' \<or> v = str ''offline'' \<or> v = str ''hybrid''"
  by (auto simp: modeEnum_def)

lemma lower_Online: "toLowerCase (str ''Online'') = str ''online''"
  by (simp add: toLowerCase_def lowerUnit_def isUpper_def)

lemma lower_HYBRID: "toLowerCase (str ''HYBRID'') = str ''hybrid''"
  by (simp add: toLowerCase_def lowerUnit_def isUpper_def)

text \<open>
  C10. The stored mode is the lower-cased input, and the input is accepted exactly
  when its lower-cased form is one of \<open>online\<close>, \<open>offline\<close>, \<open>hybrid\<close>; so \<open>Online\<close> is
  accepted and stored as \<open>online\<close>, and \<open>HYBRID\<close> as \<open>hybrid\<close>.
\<close>

theorem mode_case_insensitive:
  "setMode v = toLowerCase v \<and>
   (validMode (setMode v) \<longleftrightarrow>
      toLowerCase v = str ''online'' \<or> toLowerCase v = str ''offline''
      \<or> toLowerCase v = str ''hybrid'') \<and>
   setMode (str ''Online'') = str ''online'' \<and> validMode (setMode (str ''Online'')) \<and>
   setMode (str ''HYBRID'') = str ''hybrid'' \<and> validMode (setMode (str ''HYBRID''))"
  unfolding validMode_def setMode_def modeEnum_member lower_Online lower_HYBRID by auto

section \<open>Time normalization\<close>

lemma isDigit_unat: "isDigit c \<longleftrightarrow> 48 \<le> unat c \<and> unat c \<le> 57"
  by (simp add: isDigit_def word_le_nat_alt)

lemma parseInt_simps [simp]:
  "parseInt [] = 0" "parseInt [a] = digitVal a" "parseInt [a, b] = 10 * digitVal a + digitVal b"
  by (simp_all add: parseInt_def)

lemma len1: "length h = Suc 0 \<longleftrightarrow> (\<exists>a. h = [a])"
  by (cases h) auto

lemma len2: "length h = 2 \<longleftrightarrow> (\<exists>a b. h = [a, b])"
  by (cases h; cases "tl h") auto

lemma two_digit_le_23:
  assumes "48 \<le> a" "a \<le> 57" "48 \<le> b" "b \<le> (57::nat)"
  shows "10 * (a - 48) + (b - 48) \<le> 23 \<longleftrightarrow> a \<le> 49 \<or> (a = 50 \<and> b \<le> 51)"
  using assms by arith

lemma two_digit_le_59:
  assumes "48 \<le> a" "a \<le> 57" "48 \<le> b" "b \<le> (57::nat)"
  shows "10 * (a - 48) + (b - 48) \<le> 59 \<longleftrightarrow> a \<le> 53"
  using assms by arith

lemma specHour_chars: "specHour h \<longleftrightarrow> hourChars h"
proof -
  have one: "specHour [b] \<longleftrightarrow> hourChars [b]" for b
    by (auto simp: specHour_def hourChars_def digitVal_def isDigit_unat)
  have two: "specHour [a, b] \<longleftrightarrow> hourChars [a, b]" for a b
  proof (cases "isDigit a \<and> isDigit b")
    case True
    then have d: "48 \<le> unat a" "unat a \<le> 57" "48 \<le> unat b" "unat b \<le> 57"
      by (simp_all add: isDigit_unat)
    have "specHour [a, b] \<longleftrightarrow> unat a \<le> 49 \<or> (unat a = 50 \<and> unat b \<le> 51)"
      using True two_digit_le_23 [OF d] by (simp add: specHour_def digitVal_def)
    also have "\<dots> \<longleftrightarrow> hourChars [a, b]"
      using d by (auto simp: hourChars_def isDigit_unat word_le_nat_alt word_unat_eq_iff)
    finally show ?thesis .
  next
    case False
    then show ?thesis
      by (auto simp: specHour_def hourChars_def isDigit_unat word_le_nat_alt word_unat_eq_iff)
  qed
  show ?thesis
  proof (cases "length h = 1 \<or> length h = 2")
    case True
    then show ?thesis using one two by (auto simp: len1 len2)
  next
    case False
    then show ?thesis by (auto simp: specHour_def hourChars_def)
  qed
qed

lemma specMinute_chars: "specMinute m \<longleftrightarrow> minuteChars m"
proof -
  have two: "specMinute [a, b] \<longleftrightarrow> minuteChars [a, b]" for a b
  proof (cases "isDigit a \<and> isDigit b")
    case True
    then have d: "48 \<le> unat a" "unat a \<le> 57" "48 \<le> unat b" "unat b \<le> 57"
      by (simp_all add: isDigit_unat)
    have "specMinute [a, b] \<longleftrightarrow> unat a \<le> 53"
      using True two_digit_le_59 [OF d] by (simp add: specMinute_def digitVal_def)
    also have "\<dots> \<longleftrightarrow> minuteChars [a, b]"
      using d by (auto simp: minuteChars_def isDigit_unat word_le_nat_alt)
    finally show ?thesis .
  next
    case False
    then show ?thesis
      by (auto simp: specMinute_def minuteChars_def isDigit_unat word_le_nat_alt)
  qed
  show ?thesis
  proof (cases "length m = 2")
    case True
    then show ?thesis using two by (auto simp: len2)
  next
    case False
    then show ?thesis by (auto simp: specMinute_def minuteChars_def)
  qed
qed

lemma timeRegex_shapes:
  "accepts timeRegex s \<longleftrightarrow>
     (\<exists>b m1 m2. s = [b, COLON, m1, m2] \<and> isDigit b \<and> 0x30 \<le> m1 \<and> m1 \<le> 0x35 \<and> isDigit m2)
     \<or> (\<exists>a b m1 m2. s = [a, b, COLON, m1, m2] \<and> 0x30 \<le> a \<and> a \<le> 0x31 \<and> isDigit b
           \<and> 0x30 \<le> m1 \<and> m1 \<le> 0x35 \<and> isDigit m2)
     \<or> (\<exists>b m1 m2. s = [0x32, b, COLON, m1, m2] \<and> 0x30 \<le> b \<and> b \<le> 0x33
           \<and> 0x30 \<le> m1 \<and> m1 \<le> 0x35 \<and> isDigit m2)"
  unfolding timeRegex_def rx_unfold isDigit_def by auto

lemma timeRegex_chars:
  "accepts timeRegex s \<longleftrightarrow> (\<exists>h m. s = h @ [COLON] @ m \<and> hourChars h \<and> minuteChars m)"
  (is "?L \<longleftrightarrow> ?R")
proof
  assume ?L
  then consider
      (one) b m1 m2 where "s = [b, COLON, m1, m2]" "isDigit b" "0x30 \<le> m1" "m1 \<le> 0x35" "isDigit m2"
    | (two) a b m1 m2 where "s = [a, b, COLON, m1, m2]" "0x30 \<le> a" "a \<le> 0x31" "isDigit b"
        "0x30 \<le> m1" "m1 \<le> 0x35" "isDigit m2"
    | (three) b m1 m2 where "s = [0x32, b, COLON, m1, m2]" "0x30 \<le> b" "b \<le> 0x33"
        "0x30 \<le> m1" "m1 \<le> 0x35" "isDigit m2"
    unfolding timeRegex_shapes by blast
  then show ?R
  proof cases
    case one
    then show ?thesis
      by (intro exI [of _ "[b]"] exI [of _ "[m1, m2]"]) (simp add: hourChars_def minuteChars_def)
  next
    case two
    then show ?thesis
      by (intro exI [of _ "[a, b]"] exI [of _ "[m1, m2]"]) (simp add: hourChars_def minuteChars_def)
  next
    case three
    then show ?thesis
      by (intro exI [of _ "[0x32, b]"] exI [of _ "[m1, m2]"]) (simp add: hourChars_def minuteChars_def)
  qed
next
  assume ?R
  then show ?L
    unfolding timeRegex_shapes hourChars_def minuteChars_def
    by (elim disjE exE conjE) simp_all
qed

lemma timeRegex_spec:
  "test timeRegex s \<longleftrightarrow> (\<exists>h m. s = h @ [COLON] @ m \<and> specHour h \<and> specMinute m)"
  by (simp add: test_accepts timeRegex_chars specHour_chars specMinute_chars)

lemma split_no_sep: "sep \<notin> set m \<Longrightarrow> split sep m = [m]"
  by (induction m) auto

lemma split_at_sep: "sep \<notin> set h \<Longrightarrow> split sep (h @ sep # r) = h # split sep r"
  by (induction h) auto

lemma digit_not_colon: "list_all isDigit h \<Longrightarrow> COLON \<notin> set h"
  by (auto simp: list_all_iff isDigit_def)

lemma normalizeTime_accept:
  assumes "specHour h" "specMinute m"
  shows "normalizeTime (Some (h @ [COLON] @ m)) = Inr (padStart0 2 h @ [COLON] @ m)"
proof -
  have t: "test timeRegex (h @ [COLON] @ m)"
    using assms timeRegex_spec by blast
  have "COLON \<notin> set h" "COLON \<notin> set m"
    using assms by (simp_all add: specHour_def specMinute_def digit_not_colon)
  then have sp: "split COLON (h @ [COLON] @ m) = [h, m]"
    by (simp add: split_at_sep split_no_sep)
  have "padStart0 2 m = m"
    using assms by (simp add: specMinute_def padStart0_def)
  then show ?thesis
    using t sp by (simp add: normalizeTime_def)
qed

lemma normalizeTime_cases:
  "normalizeTime v = Inl (Error ''Time must be in HH:MM format'')
   \<or> (\<exists>h m. v = Some (h @ [COLON] @ m) \<and> specHour h \<and> specMinute m
        \<and> normalizeTime v = Inr (padStart0 2 h @ [COLON] @ m))"
proof (cases v)
  case None
  then show ?thesis by (simp add: normalizeTime_def)
next
  case (Some s)
  show ?thesis
  proof (cases "test timeRegex s")
    case True
    then obtain h m where "s = h @ [COLON] @ m" "specHour h" "specMinute m"
      using timeRegex_spec by blast
    then show ?thesis using Some normalizeTime_accept by blast
  next
    case False
    then show ?thesis using Some by (simp add: normalizeTime_def)
  qed
qed

text \<open>
  The time part of the hook: it runs when the slug and date parts have not thrown
  and the time is modified, and then stores the normalized time or throws; the
  parts before it leave the time alone.
\<close>

lemma slugStage_time:
  "time (doc (slugStage e h)) = time (doc h)
   \<and> isModified (doc (slugStage e h)) = isModified (doc h)"
  by (simp add: slugStage_def Let_def split: option.splits)

lemma dateStage_time:
  "time (doc (dateStage h)) = time (doc h)
   \<and> isModified (doc (dateStage h)) = isModified (doc h)"
  by (simp add: dateStage_def Let_def split: sum.splits)

lemma beforeTime_frame:
  "time (doc (beforeTime e d)) = time d \<and> isModified (doc (beforeTime e d)) = isModified d"
  by (simp add: beforeTime_def andThen_def slugStage_time dateStage_time)

lemma preValidate_beforeTime: "preValidate e d = andThen (beforeTime e d) timeStage"
  by (simp add: preValidate_def beforeTime_def)

lemma hook_time_stopped:
  "thrown (beforeTime e d) \<noteq> None \<Longrightarrow> preValidate e d = beforeTime e d"
  by (auto simp: preValidate_beforeTime andThen_def)

lemma hook_time_skipped:
  assumes "\<not> isModified d Time"
  shows "preValidate e d = beforeTime e d"
  using assms beforeTime_frame [of e d]
  by (simp add: preValidate_beforeTime andThen_def timeStage_def Let_def)

lemma hook_time_stored:
  assumes "isModified d Time" and "thrown (beforeTime e d) = None"
    and "normalizeTime (time d) = Inr t"
  shows "thrown (preValidate e d) = None \<and> time (doc (preValidate e d)) = Some t"
  using assms beforeTime_frame [of e d]
  by (simp add: preValidate_beforeTime andThen_def timeStage_def Let_def)

lemma hook_time_thrown:
  assumes "isModified d Time" and "thrown (beforeTime e d) = None"
    and "normalizeTime (time d) = Inl err"
  shows "thrown (preValidate e d) = Some err \<and> time (doc (preValidate e d)) = time d"
  using assms beforeTime_frame [of e d]
  by (simp add: preValidate_beforeTime andThen_def timeStage_def Let_def)

text \<open>
  C3. A time made of an hour part and a minute part as the specification describes
  them is accepted and normalized to the hour padded to two digits, a colon and the
  minutes; nothing else is accepted, and whatever is not accepted gives the format
  error; so \<open>9:5\<close> is rejected, \<open>09:05\<close> is unchanged and \<open>9:05\<close> becomes \<open>09:05\<close>.
  In the hook: when the time is modified and the parts before have not thrown, such
  a time is stored normalized in the \<open>time\<close> field and the hook does not throw; a
  run that does not throw has stored the normalized form of such a time; any other
  time makes the hook throw the format error, which aborts the save, and leaves the
  field as it was. When the time is not modified, or a part before has thrown, the
  time part does nothing.
\<close>

theorem time_normalization:
  "(specHour h \<longrightarrow> specMinute m \<longrightarrow>
      normalizeTime (Some (h @ [COLON] @ m)) = Inr (padStart0 2 h @ [COLON] @ m))
   \<and> (normalizeTime v = Inr out \<longrightarrow>
        (\<exists>h m. v = Some (h @ [COLON] @ m) \<and> specHour h \<and> specMinute m))
   \<and> ((\<forall>out. normalizeTime v \<noteq> Inr out) \<longrightarrow>
        normalizeTime v = Inl (Error ''Time must be in HH:MM format''))
   \<and> normalizeTime (Some (str ''9:5'')) = Inl (Error ''Time must be in HH:MM format'')
   \<and> normalizeTime (Some (str ''09:05'')) = Inr (str ''09:05'')
   \<and> normalizeTime (Some (str ''9:05'')) = Inr (str ''09:05'')
   \<and> (isModified d Time \<longrightarrow> thrown (beforeTime e d) = None \<longrightarrow>
        time d = Some (h @ [COLON] @ m) \<longrightarrow> specHour h \<longrightarrow> specMinute m \<longrightarrow>
        thrown (preValidate e d) = None
        \<and> time (doc (preValidate e d)) = Some (padStart0 2 h @ [COLON] @ m))
   \<and> (isModified d Time \<longrightarrow> thrown (preValidate e d) = None \<longrightarrow>
        (\<exists>h m. time d = Some (h @ [COLON] @ m) \<and> specHour h \<and> specMinute m
               \<and> time (doc (preValidate e d)) = Some (padStart0 2 h @ [COLON] @ m)))
   \<and> (isModified d Time \<longrightarrow> thrown (beforeTime e d) = None \<longrightarrow>
        (\<forall>h m. time d = Some (h @ [COLON] @ m) \<longrightarrow> \<not> (specHour h \<and> specMinute m)) \<longrightarrow>
        thrown (preValidate e d) = Some (Error ''Time must be in HH:MM format'')
        \<and> time (doc (preValidate e d)) = time d)
   \<and> (\<not> isModified d Time \<longrightarrow> preValidate e d = beforeTime e d)
   \<and> (thrown (beforeTime e d) \<noteq> None \<longrightarrow> preValidate e d = beforeTime e d)
   \<and> time (doc (beforeTime e d)) = time d"
proof (intro conjI impI)
  assume "specHour h" "specMinute m"
  then show "normalizeTime (Some (h @ [COLON] @ m)) = Inr (padStart0 2 h @ [COLON] @ m)"
    by (rule normalizeTime_accept)
next
  assume "normalizeTime v = Inr out"
  then show "\<exists>h m. v = Some (h @ [COLON] @ m) \<and> specHour h \<and> specMinute m"
    using normalizeTime_cases [of v] by auto
next
  assume "\<forall>out. normalizeTime v \<noteq> Inr out"
  then show "normalizeTime v = Inl (Error ''Time must be in HH:MM format'')"
    using normalizeTime_cases [of v] by auto
next
  show "normalizeTime (Some (str ''9:5'')) = Inl (Error ''Time must be in HH:MM format'')"
    by (simp add: normalizeTime_def timeRegex_def rx_unfold)
next
  have "specHour (str ''09'')" "specMinute (str ''05'')"
    by (simp_all add: specHour_def specMinute_def isDigit_def digitVal_def)
  then show "normalizeTime (Some (str ''09:05'')) = Inr (str ''09:05'')"
    using normalizeTime_accept [of "str ''09''" "str ''05''"] by (simp add: padStart0_def)
next
  have "specHour (str ''9'')" "specMinute (str ''05'')"
    by (simp_all add: specHour_def specMinute_def isDigit_def digitVal_def)
  then show "normalizeTime (Some (str ''9:05'')) = Inr (str ''09:05'')"
    using normalizeTime_accept [of "str ''9''" "str ''05''"] by (simp add: padStart0_def)
next
  assume "isModified d Time" "thrown (beforeTime e d) = None"
    "time d = Some (h @ [COLON] @ m)" "specHour h" "specMinute m"
  then show "thrown (preValidate e d) = None"
    and "time (doc (preValidate e d)) = Some (padStart0 2 h @ [COLON] @ m)"
    using hook_time_stored [of d e "padStart0 2 h @ [COLON] @ m"] normalizeTime_accept [of h m]
    by simp_all
next
  assume md: "isModified d Time" and ok: "thrown (preValidate e d) = None"
  have bt: "thrown (beforeTime e d) = None"
  proof (rule ccontr)
    assume n: "thrown (beforeTime e d) \<noteq> None"
    then have "preValidate e d = beforeTime e d" by (rule hook_time_stopped)
    then show False using ok n by simp
  qed
  show "\<exists>h m. time d = Some (h @ [COLON] @ m) \<and> specHour h \<and> specMinute m
      \<and> time (doc (preValidate e d)) = Some (padStart0 2 h @ [COLON] @ m)"
  proof (cases "normalizeTime (time d)")
    case (Inl err)
    then show ?thesis using hook_time_thrown [OF md bt Inl] ok by simp
  next
    case (Inr t)
    then obtain h m where "time d = Some (h @ [COLON] @ m)" "specHour h" "specMinute m"
      "t = padStart0 2 h @ [COLON] @ m"
      using normalizeTime_cases [of "time d"] by auto
    then show ?thesis using hook_time_stored [OF md bt Inr] by blast
  qed
next
  assume md: "isModified d Time" and bt: "thrown (beforeTime e d) = None"
    and no: "\<forall>h m. time d = Some (h @ [COLON] @ m) \<longrightarrow> \<not> (specHour h \<and> specMinute m)"
  have "normalizeTime (time d) = Inl (Error ''Time must be in HH:MM format'')"
    using normalizeTime_cases [of "time d"] no by blast
  then show "thrown (preValidate e d) = Some (Error ''Time must be in HH:MM format'')"
    and "time (doc (preValidate e d)) = time d"
    using hook_time_thrown [OF md bt] by simp_all
next
  assume "\<not> isModified d Time"
  then show "preValidate e d = beforeTime e d" by (rule hook_time_skipped)
next
  assume "thrown (beforeTime e d) \<noteq> None"
  then show "preValidate e d = beforeTime e d" by (rule hook_time_stopped)
next
  show "time (doc (beforeTime e d)) = time d" by (simp add: beforeTime_frame)
qed

theorem time_normalization_witness:
  "specHour (str ''9'') \<and> specMinute (str ''05'')
   \<and> normalizeTime (Some (str ''9:05'')) = Inr (str ''09:05'')
   \<and> (\<exists>h m. Some (str ''9:05'') = Some (h @ [COLON] @ m) \<and> specHour h \<and> specMinute m)
   \<and> (\<forall>out. normalizeTime (Some (str ''9:5'')) \<noteq> Inr out)
   \<and> isModified sampleEvent Time
   \<and> thrown (beforeTime sampleEnv sampleEvent) = None
   \<and> time sampleEvent = Some (str ''9'' @ [COLON] @ str ''05'')
   \<and> thrown (preValidate sampleEnv sampleEvent) = None
   \<and> time (doc (preValidate sampleEnv sampleEvent)) = Some (str ''09:05'')
   \<and> isModified (sampleEvent\<lparr>time := Some (str ''9:5'')\<rparr>) Time
   \<and> thrown (beforeTime sampleEnv (sampleEvent\<lparr>time := Some (str ''9:5'')\<rparr>)) = None
   \<and> \<not> (\<exists>h m. time (sampleEvent\<lparr>time := Some (str ''9:5'')\<rparr>) = Some (h @ [COLON] @ m)
              \<and> specHour h \<and> specMinute m)
   \<and> thrown (preValidate sampleEnv (sampleEvent\<lparr>time := Some (str ''9:5'')\<rparr>))
       = Some (Error ''Time must be in HH:MM format'')
   \<and> time (doc (preValidate sampleEnv (sampleEvent\<lparr>time := Some (str ''9:5'')\<rparr>)))
       = Some (str ''9:5'')"
proof -
  let ?bad = "sampleEvent\<lparr>time := Some (str ''9:5'')\<rparr>"
  have a: "specHour (str ''9'')" and b: "specMinute (str ''05'')"
    by (simp_all add: specHour_def specMinute_def isDigit_def digitVal_def)
  have c: "normalizeTime (Some (str ''9:05'')) = Inr (str ''09:05'')"
    using time_normalization [of "str ''9''" "str ''05''"] a b by (simp add: padStart0_def)
  have d: "\<exists>h m. Some (str ''9:05'') = Some (h @ [COLON] @ m) \<and> specHour h \<and> specMinute m"
    using time_normalization [of _ _ "Some (str ''9:05'')" "str ''09:05''"] c by blast
  have e: "\<forall>out. normalizeTime (Some (str ''9:5'')) \<noteq> Inr out"
    using time_normalization [of "[]" "[]" None "[]"] by simp
  have f: "isModified sampleEvent Time" "isModified ?bad Time"
    by (simp_all add: sampleEvent_def)
  have g: "thrown (beforeTime sampleEnv sampleEvent) = None"
    by code_simp
  have g': "thrown (beforeTime sampleEnv ?bad) = None"
    by code_simp
  have t: "time sampleEvent = Some (str ''9'' @ [COLON] @ str ''05'')"
    by (simp add: sampleEvent_def)
  have t': "time ?bad = Some (str ''9:5'')"
    by simp
  have p: "padStart0 2 (str ''9'') @ [COLON] @ str ''05'' = str ''09:05''"
    by (simp add: padStart0_def)
  have "isModified sampleEvent Time \<longrightarrow> thrown (beforeTime sampleEnv sampleEvent) = None \<longrightarrow>
        time sampleEvent = Some (str ''9'' @ [COLON] @ str ''05'') \<longrightarrow>
        specHour (str ''9'') \<longrightarrow> specMinute (str ''05'') \<longrightarrow>
        thrown (preValidate sampleEnv sampleEvent) = None
        \<and> time (doc (preValidate sampleEnv sampleEvent))
            = Some (padStart0 2 (str ''9'') @ [COLON] @ str ''05'')"
    by (rule time_normalization [where h = "str ''9''" and m = "str ''05''" and d = sampleEvent
          and e = sampleEnv, THEN conjunct2, THEN conjunct2, THEN conjunct2, THEN conjunct2,
          THEN conjunct2, THEN conjunct2, THEN conjunct1])
  then have good: "thrown (preValidate sampleEnv sampleEvent) = None
      \<and> time (doc (preValidate sampleEnv sampleEvent)) = Some (str ''09:05'')"
    using a b f(1) g t unfolding p by blast
  have n: "\<not> (\<exists>h m. time ?bad = Some (h @ [COLON] @ m) \<and> specHour h \<and> specMinute m)"
  proof
    assume "\<exists>h m. time ?bad = Some (h @ [COLON] @ m) \<and> specHour h \<and> specMinute m"
    then obtain h m where hm: "str ''9:5'' = h @ [COLON] @ m" "specHour h" "specMinute m"
      unfolding t' by blast
    have "specHour h \<longrightarrow> specMinute m \<longrightarrow>
        normalizeTime (Some (h @ [COLON] @ m)) = Inr (padStart0 2 h @ [COLON] @ m)"
      by (rule time_normalization [where h = h and m = m, THEN conjunct1])
    then have "normalizeTime (Some (str ''9:5'')) = Inr (padStart0 2 h @ [COLON] @ m)"
      using hm by (simp only:)
    then show False using e by blast
  qed
  then have n': "\<forall>h m. time ?bad = Some (h @ [COLON] @ m) \<longrightarrow> \<not> (specHour h \<and> specMinute m)"
    by blast
  have "isModified ?bad Time \<longrightarrow> thrown (beforeTime sampleEnv ?bad) = None \<longrightarrow>
        (\<forall>h m. time ?bad = Some (h @ [COLON] @ m) \<longrightarrow> \<not> (specHour h \<and> specMinute m)) \<longrightarrow>
        thrown (preValidate sampleEnv ?bad) = Some (Error ''Time must be in HH:MM format'')
        \<and> time (doc (preValidate sampleEnv ?bad)) = time ?bad"
    by (rule time_normalization [where d = ?bad and e = sampleEnv, THEN conjunct2,
          THEN conjunct2, THEN conjunct2, THEN conjunct2, THEN conjunct2, THEN conjunct2,
          THEN conjunct2, THEN conjunct2, THEN conjunct1])
  then have bad: "thrown (preValidate sampleEnv ?bad) = Some (Error ''Time must be in HH:MM format'')
      \<and> time (doc (preValidate sampleEnv ?bad)) = Some (str ''9:5'')"
    using f(2) g' n' unfolding t' by blast
  show ?thesis
    by (intro conjI) (use a b c d e f g g' t good n bad in \<open>blast+\<close>)
qed

section \<open>The e-mail field of a Booking\<close>

lemma emailRegex_spec:
  "test emailRegex s \<longleftrightarrow>
     (\<exists>l d t. s = l @ [AT] @ d @ [DOT] @ t \<and> specPart l \<and> specPart d \<and> specPart t)"
  unfolding test_accepts emailRegex_def specPart_def
  by (simp add: accepts_Seq [of "Plus _"] accepts_Plus_Cls accepts_Seq_Cls Chr_def) blast

lemmas cu_nat = word_le_nat_alt word_unat_eq_iff unat_word_ariths

lemma lowerUnit_space: "isSpace c \<Longrightarrow> lowerUnit c = [c]"
  by (auto simp: lowerUnit_def isSpace_def isUpper_def cu_nat)

lemma lowerUnit_not_space: "\<not> isSpace c \<Longrightarrow> x \<in> set (lowerUnit c) \<Longrightarrow> \<not> isSpace x"
  by (auto simp: lowerUnit_def isSpace_def isUpper_def cu_nat split: if_splits)

lemma lowerUnit_not_Nil: "lowerUnit c \<noteq> []"
  by (simp add: lowerUnit_def)

text \<open>
  Trimming commutes with the lower-casing of the slug, so the order in which the
  library applies the two setters of the \<open>slug\<close> field does not matter.
\<close>

lemma toLowerCase_simps [simp]:
  "toLowerCase [] = []" "toLowerCase (c # s) = lowerUnit c @ toLowerCase s"
  "toLowerCase (s @ t) = toLowerCase s @ toLowerCase t"
  by (simp_all add: toLowerCase_def)

lemma dropWhile_block:
  "u \<noteq> [] \<Longrightarrow> \<not> p (hd u) \<Longrightarrow> dropWhile p (u @ v) = u @ v"
  by (cases u) auto

lemma trimStart_lower: "trimStart (toLowerCase s) = toLowerCase (trimStart s)"
proof (induction s)
  case Nil
  show ?case by (simp add: trimStart_def)
next
  case (Cons c s)
  show ?case
  proof (cases "isSpace c")
    case True
    then show ?thesis using Cons by (simp add: trimStart_def lowerUnit_space)
  next
    case False
    have "hd (lowerUnit c) \<in> set (lowerUnit c)" by (simp add: lowerUnit_not_Nil)
    then have "\<not> isSpace (hd (lowerUnit c))" using False lowerUnit_not_space by blast
    then show ?thesis using False by (simp add: trimStart_def dropWhile_block lowerUnit_not_Nil)
  qed
qed

lemma trimEnd_snoc: "trimEnd (s @ [c]) = (if isSpace c then trimEnd s else s @ [c])"
  by (simp add: trimEnd_def)

lemma trimEnd_block: "u \<noteq> [] \<Longrightarrow> \<not> isSpace (last u) \<Longrightarrow> trimEnd (v @ u) = v @ u"
  by (induction u rule: rev_induct) (simp_all add: trimEnd_snoc flip: append_assoc)

lemma trimEnd_lower: "trimEnd (toLowerCase s) = toLowerCase (trimEnd s)"
proof (induction s rule: rev_induct)
  case Nil
  show ?case by (simp add: trimEnd_def)
next
  case (snoc c s)
  show ?case
  proof (cases "isSpace c")
    case True
    then show ?thesis using snoc by (simp add: trimEnd_snoc lowerUnit_space)
  next
    case False
    have "last (lowerUnit c) \<in> set (lowerUnit c)" by (simp add: lowerUnit_not_Nil)
    then have "\<not> isSpace (last (lowerUnit c))" using False lowerUnit_not_space by blast
    then show ?thesis using False by (simp add: trimEnd_snoc trimEnd_block lowerUnit_not_Nil)
  qed
qed

lemma trim_lower: "trim (toLowerCase s) = toLowerCase (trim s)"
  by (simp add: trim_def trimStart_lower trimEnd_lower)

lemma specPart_no_space: "specPart p \<Longrightarrow> c \<in> set p \<Longrightarrow> \<not> isSpace c \<and> c \<noteq> AT"
  by (auto simp: specPart_def list_all_iff notSpaceAt_def)

lemma space_not_AT_DOT: "isSpace c \<Longrightarrow> c \<noteq> AT \<and> c \<noteq> DOT"
  by (auto simp: isSpace_def)

lemma specPart_count: "specPart p \<Longrightarrow> count_list p AT = 0"
  by (auto simp: specPart_def list_all_iff notSpaceAt_def count_list_0_iff)

lemma count_list_app: "count_list (xs @ ys) a = count_list xs a + count_list ys a"
  by (induction xs) simp_all

lemma setEmail_sample: "setEmail toLowerCase (str '' A@b.Co '') = str ''a@b.co''"
  by (simp add: setEmail_def trim_def trimStart_def trimEnd_def isSpace_def
      lowerUnit_def isUpper_def)

lemma setEmail_nodot: "setEmail toLowerCase (str ''a@b'') = str ''a@b''"
  by (simp add: setEmail_def trim_def trimStart_def trimEnd_def isSpace_def
      lowerUnit_def isUpper_def)

lemma email_nodot: "\<not> validEmail (setEmail toLowerCase (str ''a@b''))"
  unfolding setEmail_nodot
  by (simp add: validEmail_def emailValidator_def emailRegex_def Plus_def Chr_def
      notSpaceAt_def isSpace_def)

lemma specPart_no_AT: "specPart p \<Longrightarrow> AT \<notin> set p"
  by (auto simp: specPart_def list_all_iff notSpaceAt_def)

lemma accepted_form:
  assumes "s = l @ [AT] @ d @ [DOT] @ t" and "specPart l" "specPart d" "specPart t"
  shows "specEmailForm s"
proof -
  have l: "AT \<notin> set l" and r: "AT \<notin> set (d @ DOT # t)"
    using assms(2-4) specPart_no_AT by auto
  have sp: "split AT s = [l, d @ DOT # t]"
    unfolding assms(1) using split_at_sep [OF l, of "d @ DOT # t"] split_no_sep [OF r] by simp
  have "\<forall>c \<in> set s. \<not> isSpace c"
    unfolding assms(1) using assms(2-4) specPart_no_space space_not_AT_DOT by auto
  then show ?thesis
    using assms(2) sp by (simp add: specEmailForm_def list_all_iff specPart_def)
qed

text \<open>
  C7, as stated, fails: \<open>a@b\<close> has the form local-part@domain with no white space,
  and it is rejected, for its domain has no dot.
\<close>

theorem email_no_dot_counterexample:
  "specEmailForm (str ''a@b'') \<and> \<not> validEmail (setEmail toLowerCase (str ''a@b''))"
  using email_nodot by (simp add: specEmailForm_def isSpace_def)

text \<open>
  C7, as the code has it. Whatever the lower-casing of the runtime is, the stored
  e-mail is the trimmed input lower-cased, and the input is accepted exactly when
  that stored value is made of three non-empty parts free of white space and of
  \<open>@\<close>, joined by \<open>@\<close> and by a dot. An accepted value has the form the
  specification words, no white space and exactly one \<open>@\<close>. The validation of any
  stored value \<open>s\<close> is by the same pattern, whatever produced it.
\<close>

theorem email_accepted:
  "setEmail lc v = lc (trim v)
   \<and> (validEmail (setEmail lc v) \<longleftrightarrow>
        (\<exists>l d t. lc (trim v) = l @ [AT] @ d @ [DOT] @ t
                  \<and> specPart l \<and> specPart d \<and> specPart t))
   \<and> (validEmail (setEmail lc v) \<longrightarrow>
        specEmailForm (setEmail lc v)
        \<and> (\<forall>c \<in> set (setEmail lc v). \<not> isSpace c) \<and> count_list (setEmail lc v) AT = 1)
   \<and> (validEmail s \<longleftrightarrow>
        (\<exists>l d t. s = l @ [AT] @ d @ [DOT] @ t \<and> specPart l \<and> specPart d \<and> specPart t))"
proof -
  have any: "validEmail s \<longleftrightarrow>
        (\<exists>l d t. s = l @ [AT] @ d @ [DOT] @ t \<and> specPart l \<and> specPart d \<and> specPart t)"
    unfolding validEmail_def emailValidator_def emailRegex_spec by auto
  have e: "setEmail lc v = lc (trim v)"
    by (simp add: setEmail_def)
  have iff: "validEmail (setEmail lc v) \<longleftrightarrow>
        (\<exists>l d t. lc (trim v) = l @ [AT] @ d @ [DOT] @ t
                  \<and> specPart l \<and> specPart d \<and> specPart t)"
    unfolding validEmail_def emailValidator_def emailRegex_spec e by auto
  have c: "specEmailForm (setEmail lc v)
      \<and> (\<forall>c \<in> set (setEmail lc v). \<not> isSpace c) \<and> count_list (setEmail lc v) AT = 1"
    if ok: "validEmail (setEmail lc v)"
  proof -
    obtain l d t where s: "setEmail lc v = l @ [AT] @ d @ [DOT] @ t"
      and p: "specPart l" "specPart d" "specPart t"
      using ok iff e by auto
    have "\<forall>c \<in> set (setEmail lc v). \<not> isSpace c"
      unfolding s using p specPart_no_space space_not_AT_DOT by auto
    moreover have "count_list (setEmail lc v) AT = 1"
      unfolding s using p by (simp add: count_list_app specPart_count)
    moreover have "specEmailForm (setEmail lc v)"
      using s p by (rule accepted_form)
    ultimately show ?thesis by simp
  qed
  show ?thesis using e iff c any by blast
qed

theorem email_accepted_witness:
  "validEmail (setEmail toLowerCase (str '' A@b.Co ''))
   \<and> setEmail toLowerCase (str '' A@b.Co '') = str ''a@b.co''
   \<and> specEmailForm (setEmail toLowerCase (str '' A@b.Co ''))
   \<and> list_all (\<lambda>c. \<not> isSpace c) (setEmail toLowerCase (str '' A@b.Co ''))
   \<and> count_list (setEmail toLowerCase (str '' A@b.Co '')) AT = 1"
proof -
  note inst = email_accepted [of toLowerCase "str '' A@b.Co ''"]
  have "specPart (str ''a'')" "specPart (str ''b'')" "specPart (str ''co'')"
    by (simp_all add: specPart_def notSpaceAt_def isSpace_def)
  then have "\<exists>l d t. str ''a@b.co'' = l @ [AT] @ d @ [DOT] @ t
      \<and> specPart l \<and> specPart d \<and> specPart t"
    by (intro exI [of _ "str ''a''"] exI [of _ "str ''b''"] exI [of _ "str ''co''"]) simp
  then have "\<exists>l d t. toLowerCase (trim (str '' A@b.Co '')) = l @ [AT] @ d @ [DOT] @ t
      \<and> specPart l \<and> specPart d \<and> specPart t"
    using inst setEmail_sample by metis
  then have v: "validEmail (setEmail toLowerCase (str '' A@b.Co ''))"
    using inst by blast
  then show ?thesis
    using inst setEmail_sample unfolding list_all_iff by blast
qed

section \<open>Slug derivation\<close>

lemma findOne_None: "findOne (store e) c self = None \<longleftrightarrow> \<not> collides e self c"
  by (auto simp: findOne_def collides_def find_None_iff)

lemma generateShortId_snd [simp]: "snd (generateShortId rnd pos) = pos + 6"
  by (simp add: generateShortId_def)

lemma findOne_free: "\<not> collides e self c \<Longrightarrow> findOne (store e) c self = None"
  by (simp add: findOne_None)

lemma findOne_hit: "(\<forall>a b. findOne (store e) c self \<noteq> Some (a, b)) \<longleftrightarrow> \<not> collides e self c"
  using findOne_None [of e c self] by auto

lemma retryLoop_done: "retryLoop e self base (Suc (Suc (Suc 0))) st = st"
  by (simp add: retryLoop.simps)

lemma retryLoop_step:
  assumes "attempts < 3"
  shows "retryLoop e self base attempts st =
     (let cand = base @ [HYPHEN] @ fst (generateShortId (random e) (draws st));
          st' = \<lparr>candidate = cand, exists = findOne (store e) cand self,
                 draws = draws st + 6, reads = reads st + 1\<rparr>
      in if \<not> collides e self cand then st' else retryLoop e self base (Suc attempts) st')"
  using assms
  by (subst retryLoop.simps) (simp add: Let_def split_beta findOne_None)

lemma retryLoop_0:
  assumes "draws st = 0" "reads st = 1"
  shows "retryLoop e self (slugBase t) 0 st =
     (if \<not> collides e self (retryCandidate e t 0) then
        \<lparr>candidate = retryCandidate e t 0, exists = None, draws = 6, reads = 2\<rparr>
      else if \<not> collides e self (retryCandidate e t 1) then
        \<lparr>candidate = retryCandidate e t 1, exists = None, draws = 12, reads = 3\<rparr>
      else
        \<lparr>candidate = retryCandidate e t 2,
         exists = findOne (store e) (retryCandidate e t 2) self, draws = 18, reads = 4\<rparr>)"
  using assms
  by (simp add: retryLoop_step [of 0] retryLoop_step [of "Suc 0"] retryLoop_step [of "Suc (Suc 0)"]
      retryLoop_done Let_def retryCandidate_def token_def findOne_free)

lemma deriveSlug_cases:
  "deriveSlug e self t =
     (if \<not> collides e self (firstCandidate t) then
        \<lparr>candidate = firstCandidate t, exists = None, draws = 0, reads = 1\<rparr>
      else if \<not> collides e self (retryCandidate e t 0) then
        \<lparr>candidate = retryCandidate e t 0, exists = None, draws = 6, reads = 2\<rparr>
      else if \<not> collides e self (retryCandidate e t 1) then
        \<lparr>candidate = retryCandidate e t 1, exists = None, draws = 12, reads = 3\<rparr>
      else if \<not> collides e self (retryCandidate e t 2) then
        \<lparr>candidate = retryCandidate e t 2, exists = None, draws = 18, reads = 4\<rparr>
      else
        \<lparr>candidate = fallbackCandidate e t,
         exists = findOne (store e) (retryCandidate e t 2) self, draws = 24, reads = 4\<rparr>)"
  unfolding deriveSlug_def Let_def
  by (simp add: retryLoop_0 findOne_None findOne_free findOne_hit firstCandidate_def
      fallbackCandidate_def token_def split_beta)

lemma lowerUnit_no_upper: "x \<in> set (lowerUnit c) \<Longrightarrow> \<not> isUpper x"
  by (auto simp: lowerUnit_def isUpper_def cu_nat split: if_splits)

lemma toLowerCase_no_upper: "x \<in> set (toLowerCase s) \<Longrightarrow> \<not> isUpper x"
  by (auto simp: toLowerCase_def lowerUnit_no_upper)

lemma set_trim: "set (trim s) \<subseteq> set s"
proof -
  have "set (trimEnd u) \<subseteq> set u" for u
    using set_dropWhileD [of _ isSpace "rev u"] by (auto simp: trimEnd_def)
  moreover have "set (trimStart u) \<subseteq> set u" for u
    using set_dropWhileD [of _ isSpace u] by (auto simp: trimStart_def)
  ultimately show ?thesis unfolding trim_def by blast
qed

lemma set_replaceRuns: "set (replaceRuns p s) \<subseteq> {x \<in> set s. \<not> p x} \<union> {HYPHEN}"
proof (induction p s rule: replaceRuns.induct)
  case (1 p)
  show ?case by simp
next
  case (2 p c cs)
  show ?case
  proof (cases "p c")
    case True
    have "set (dropWhile p cs) \<subseteq> set cs" using set_dropWhileD by fastforce
    then show ?thesis using True 2 by auto
  next
    case False
    then show ?thesis using 2 by auto
  qed
qed

lemma replaceRuns_hd: "s \<noteq> [] \<Longrightarrow> \<not> p (hd s) \<Longrightarrow> hd (replaceRuns p s) = hd s"
  by (cases s) auto

lemma replaceRuns_Nil: "replaceRuns p s = [] \<longleftrightarrow> s = []"
  by (cases s) auto

lemma dropWhile_hd: "dropWhile p s \<noteq> [] \<Longrightarrow> \<not> p (hd (dropWhile p s))"
  using hd_dropWhile by blast

lemma doubleHyphen_Cons:
  "doubleHyphen (a # s) \<longleftrightarrow> (s \<noteq> [] \<and> a = HYPHEN \<and> hd s = HYPHEN) \<or> doubleHyphen s"
  by (cases s) auto

lemma squeeze_no_double: "\<not> doubleHyphen (replaceRuns (\<lambda>c. c = HYPHEN) s)"
proof (induction "\<lambda>c::cu. c = HYPHEN" s rule: replaceRuns.induct)
  case 1
  show ?case by simp
next
  case (2 c cs)
  show ?case
  proof (cases "c = HYPHEN")
    case True
    let ?r = "dropWhile (\<lambda>c. c = HYPHEN) cs"
    have "hd (replaceRuns (\<lambda>c. c = HYPHEN) ?r) \<noteq> HYPHEN" if "?r \<noteq> []"
      using that dropWhile_hd [of "\<lambda>c. c = HYPHEN" cs] replaceRuns_hd [of ?r "\<lambda>c. c = HYPHEN"]
      by simp
    then show ?thesis using True 2 by (auto simp: doubleHyphen_Cons replaceRuns_Nil)
  next
    case False
    then show ?thesis using 2 by (auto simp: doubleHyphen_Cons)
  qed
qed

lemma doubleHyphen_append:
  "doubleHyphen (xs @ ys) \<longleftrightarrow>
     doubleHyphen xs \<or> doubleHyphen ys
     \<or> (xs \<noteq> [] \<and> ys \<noteq> [] \<and> last xs = HYPHEN \<and> hd ys = HYPHEN)"
  by (induction xs) (auto simp: doubleHyphen_Cons)

lemma doubleHyphen_rev: "doubleHyphen (rev s) \<longleftrightarrow> doubleHyphen s"
  by (induction s) (auto simp: doubleHyphen_append doubleHyphen_Cons hd_rev last_rev)

lemma doubleHyphen_dropWhile: "doubleHyphen (dropWhile p s) \<Longrightarrow> doubleHyphen s"
  by (induction s) (auto simp: doubleHyphen_Cons split: if_splits)

lemma stripHyphens_no_double: "\<not> doubleHyphen s \<Longrightarrow> \<not> doubleHyphen (stripHyphens s)"
  unfolding stripHyphens_def using doubleHyphen_dropWhile doubleHyphen_rev by blast

lemma stripHyphens_hd: "stripHyphens s \<noteq> [] \<Longrightarrow> hd (stripHyphens s) \<noteq> HYPHEN"
proof -
  let ?a = "dropWhile (\<lambda>c. c = HYPHEN) s"
  let ?b = "dropWhile (\<lambda>c. c = HYPHEN) (rev ?a)"
  assume n: "stripHyphens s \<noteq> []"
  then have b: "?b \<noteq> []" by (simp add: stripHyphens_def)
  have a: "?a \<noteq> []"
  proof
    assume "?a = []"
    then have "?b = []" by (simp only: rev.simps dropWhile.simps)
    with b show False by blast
  qed
  obtain u where u: "rev ?a = u @ ?b"
    using takeWhile_dropWhile_id [of "\<lambda>c. c = HYPHEN" "rev ?a"] by metis
  then have "?a = rev ?b @ rev u" by (metis rev_append rev_rev_ident)
  then have "hd ?a = hd (rev ?b)" using b by (metis hd_append2 rev_is_Nil_conv)
  moreover have "hd ?a \<noteq> HYPHEN" using a dropWhile_hd [of "\<lambda>c. c = HYPHEN" s] by simp
  ultimately show ?thesis by (simp add: stripHyphens_def)
qed

lemma stripHyphens_last: "stripHyphens s \<noteq> [] \<Longrightarrow> last (stripHyphens s) \<noteq> HYPHEN"
proof -
  let ?a = "dropWhile (\<lambda>c. c = HYPHEN) s"
  let ?b = "dropWhile (\<lambda>c. c = HYPHEN) (rev ?a)"
  assume n: "stripHyphens s \<noteq> []"
  then have b: "?b \<noteq> []" by (simp add: stripHyphens_def)
  then have "hd ?b \<noteq> HYPHEN" using dropWhile_hd [of "\<lambda>c. c = HYPHEN" "rev ?a"] by simp
  then show ?thesis using b by (simp add: stripHyphens_def last_rev)
qed

lemma set_stripHyphens: "set (stripHyphens s) \<subseteq> set s"
  unfolding stripHyphens_def
  using set_dropWhileD [of _ "\<lambda>c. c = HYPHEN" s]
    set_dropWhileD [of _ "\<lambda>c. c = HYPHEN" "rev (dropWhile (\<lambda>c. c = HYPHEN) s)"]
  by auto

lemma slugBase_chars: "x \<in> set (slugBase t) \<Longrightarrow> slugChar x"
proof -
  assume x: "x \<in> set (slugBase t)"
  let ?l = "trim (toLowerCase t)"
  let ?r = "removeSpecial ?l"
  let ?s = "spacesToHyphens ?r"
  let ?q = "squeezeHyphens ?s"
  have "x \<in> set ?q" using x set_stripHyphens unfolding slugBase_def by blast
  then have "x \<in> set ?s \<or> x = HYPHEN"
    using set_replaceRuns [of "\<lambda>c. c = HYPHEN" ?s] unfolding squeezeHyphens_def by auto
  then have "(x \<in> set ?r \<and> \<not> isSpace x) \<or> x = HYPHEN"
    using set_replaceRuns [of isSpace ?r] unfolding spacesToHyphens_def by auto
  moreover have "\<not> isUpper y \<and> (isWord y \<or> isSpace y \<or> y = HYPHEN)" if "y \<in> set ?r" for y
    using that set_trim [of "toLowerCase t"] toLowerCase_no_upper [of y t]
    by (auto simp: removeSpecial_def)
  ultimately show "slugChar x"
    by (auto simp: slugChar_def isWord_def)
qed

lemma slugBase_shape:
  "\<not> doubleHyphen (slugBase t)
   \<and> (slugBase t \<noteq> [] \<longrightarrow> hd (slugBase t) \<noteq> HYPHEN \<and> last (slugBase t) \<noteq> HYPHEN)"
  unfolding slugBase_def squeezeHyphens_def
  using stripHyphens_no_double squeeze_no_double stripHyphens_hd stripHyphens_last by blast

lemma alphabet_alnum: "k < 36 \<Longrightarrow> alnum (alphabet ! k)"
proof -
  have "list_all alnum alphabet"
    by (simp add: alphabet_def alnum_def isLower_def isDigit_def)
  moreover have "length alphabet = 36" by (simp add: alphabet_def)
  ultimately show "k < 36 \<Longrightarrow> alnum (alphabet ! k)" by (simp add: list_all_length)
qed

lemma length_alphabet: "length alphabet = 36"
  by (simp add: alphabet_def)

lemma token_alnum: "list_all alnum (token e k) \<and> length (token e k) = 6"
  by (simp add: token_def generateShortId_def list_all_iff length_alphabet alphabet_alnum)

lemma digitsOf_alnum: "list_all alnum (digitsOf 36 n) \<and> digitsOf 36 n \<noteq> []"
proof (induction "36::nat" n rule: digitsOf.induct)
  case (1 n)
  show ?case
  proof (cases "n < 36")
    case True
    then show ?thesis by (subst (1 2) digitsOf.simps) (simp add: alphabet_alnum)
  next
    case False
    then show ?thesis using 1 by (subst (1 2) digitsOf.simps) (simp add: alphabet_alnum)
  qed
qed

lemma alnum_slugChar: "alnum c \<Longrightarrow> slugChar c \<and> c \<noteq> HYPHEN"
  by (auto simp: alnum_def slugChar_def isLower_def isDigit_def)

lemma no_hyphen_no_double: "HYPHEN \<notin> set s \<Longrightarrow> \<not> doubleHyphen s"
  by (induction s) (auto simp: doubleHyphen_Cons)

lemma wellFormed_suffix:
  assumes b: "base \<noteq> []" "list_all slugChar base" "hd base \<noteq> HYPHEN" "last base \<noteq> HYPHEN"
      "\<not> doubleHyphen base"
    and s: "suf \<noteq> []" "list_all alnum suf"
  shows "wellFormedSlug (base @ [HYPHEN] @ suf)"
proof -
  have h: "HYPHEN \<notin> set suf" and c: "list_all slugChar suf"
    using s alnum_slugChar by (auto simp: list_all_iff)
  then have "hd suf \<noteq> HYPHEN" "last suf \<noteq> HYPHEN"
    using s by (metis hd_in_set, metis last_in_set)
  moreover have "\<not> doubleHyphen suf" using h by (rule no_hyphen_no_double)
  ultimately show ?thesis
    using b s c
    by (auto simp: wellFormedSlug_def doubleHyphen_append doubleHyphen_Cons slugChar_def)
qed

lemma slugBase_wellFormed_parts:
  assumes "slugBase t \<noteq> []"
  shows "list_all slugChar (slugBase t)" "hd (slugBase t) \<noteq> HYPHEN" "last (slugBase t) \<noteq> HYPHEN"
    "\<not> doubleHyphen (slugBase t)"
  using assms slugBase_chars slugBase_shape by (auto simp: list_all_iff)

lemma untitled_wellFormed: "wellFormedSlug (str ''untitled'')"
  by (simp add: wellFormedSlug_def slugChar_def isLower_def)

lemma firstCandidate_wellFormed: "wellFormedSlug (firstCandidate t)"
proof (cases "slugBase t = []")
  case True
  then show ?thesis using untitled_wellFormed by (simp add: firstCandidate_def)
next
  case False
  then show ?thesis
    using slugBase_wellFormed_parts [of t] by (simp add: firstCandidate_def wellFormedSlug_def)
qed

lemma retryCandidate_wellFormed: "slugBase t \<noteq> [] \<Longrightarrow> wellFormedSlug (retryCandidate e t k)"
  unfolding retryCandidate_def
  using slugBase_wellFormed_parts [of t] token_alnum [of e k]
  by (intro wellFormed_suffix) auto

lemma fallbackCandidate_wellFormed: "slugBase t \<noteq> [] \<Longrightarrow> wellFormedSlug (fallbackCandidate e t)"
  unfolding fallbackCandidate_def numToString_def
  using slugBase_wellFormed_parts [of t] token_alnum [of e 3] digitsOf_alnum [of "now e"]
  by (intro wellFormed_suffix) auto

lemma slugChar_lower: "slugChar c \<Longrightarrow> lowerUnit c = [c] \<and> \<not> isSpace c"
  by (auto simp: slugChar_def lowerUnit_def isUpper_def isLower_def isDigit_def isSpace_def cu_nat)

lemma toLowerCase_id: "list_all slugChar s \<Longrightarrow> toLowerCase s = s"
  by (induction s) (simp_all add: slugChar_lower)

lemma trim_id: "list_all slugChar s \<Longrightarrow> trim s = s"
proof -
  assume "list_all slugChar s"
  then have n: "\<forall>c \<in> set s. \<not> isSpace c" using slugChar_lower by (auto simp: list_all_iff)
  then have "dropWhile isSpace s = s" by (cases s) auto
  moreover have "dropWhile isSpace (rev s) = rev s" using n by (cases "rev s") auto
  ultimately show ?thesis by (simp add: trim_def trimStart_def trimEnd_def)
qed

lemma setSlug_id: "wellFormedSlug s \<Longrightarrow> setSlug s = s"
  by (simp add: wellFormedSlug_def setSlug_def trim_id toLowerCase_id)

lemma deriveSlug_wellFormed:
  assumes "slugBase t \<noteq> [] \<or> \<not> collides e self (str ''untitled'')"
  shows "wellFormedSlug (candidate (deriveSlug e self t))"
proof (cases "slugBase t = []")
  case True
  then have "\<not> collides e self (firstCandidate t)"
    using assms by (simp add: firstCandidate_def)
  then show ?thesis
    by (simp add: deriveSlug_cases firstCandidate_wellFormed)
next
  case False
  then show ?thesis
    by (simp add: deriveSlug_cases firstCandidate_wellFormed retryCandidate_wellFormed
        fallbackCandidate_wellFormed)
qed

lemma slugStage_runs:
  assumes "title d = Some t" and "(isNew d \<and> falsy (slug d)) \<or> isModified d Title"
  shows "slug (doc (preValidate e d)) = Some (setSlug (candidate (deriveSlug e (oid d) t)))
    \<and> queries (preValidate e d) = reads (deriveSlug e (oid d) t)"
  using assms by (auto simp: preValidate_frame slugStage_def Let_def)

text \<open>
  C1, as the code has it. Whenever the hook derives a slug from a title whose base
  is not empty, or whose fallback \<open>untitled\<close> is free, the slug it stores is not
  empty, is made of characters of \<open>[a-z0-9_-]\<close> only, neither starts nor ends with a
  hyphen and has no two hyphens in a row; this covers the fallback \<open>untitled\<close>, the
  randomized suffixes and the timestamp suffix.
\<close>

theorem slug_well_formed:
  assumes "title d = Some t"
    and "(isNew d \<and> falsy (slug d)) \<or> isModified d Title"
    and "slugBase t \<noteq> [] \<or> \<not> collides e (oid d) (str ''untitled'')"
  shows "slug (doc (preValidate e d)) = Some (candidate (deriveSlug e (oid d) t))
    \<and> wellFormedSlug (candidate (deriveSlug e (oid d) t))"
  using slugStage_runs [OF assms(1,2)] deriveSlug_wellFormed [OF assms(3)]
  by (simp add: setSlug_id)

lemma newEvent_My_Event:
  "candidate (deriveSlug sampleEnv 9 (str ''My Event'')) = str ''my-event-07elsz''"
  by code_simp

theorem slug_well_formed_witness:
  "title (newEvent (str ''My Event'')) = Some (str ''My Event'')
   \<and> ((isNew (newEvent (str ''My Event'')) \<and> falsy (slug (newEvent (str ''My Event''))))
        \<or> isModified (newEvent (str ''My Event'')) Title)
   \<and> slugBase (str ''My Event'') \<noteq> []
   \<and> slug (doc (preValidate sampleEnv (newEvent (str ''My Event'')))) = Some (str ''my-event-07elsz'')
   \<and> wellFormedSlug (str ''my-event-07elsz'')"
proof -
  have a: "title (newEvent (str ''My Event'')) = Some (str ''My Event'')"
    by (simp add: newEvent_def)
  have b: "(isNew (newEvent (str ''My Event'')) \<and> falsy (slug (newEvent (str ''My Event''))))
        \<or> isModified (newEvent (str ''My Event'')) Title"
    by (simp add: newEvent_def)
  have c: "slugBase (str ''My Event'') \<noteq> []"
    by code_simp
  have o: "oid (newEvent (str ''My Event'')) = 9"
    by (simp add: newEvent_def)
  from c have c': "slugBase (str ''My Event'') \<noteq> []
      \<or> \<not> collides sampleEnv (oid (newEvent (str ''My Event''))) (str ''untitled'')"
    by (rule disjI1)
  show ?thesis
    using slug_well_formed [OF a b c'] a b c
    unfolding o newEvent_My_Event by blast
qed

text \<open>
  C1, as stated, fails: the title \<open>a_b\<close> gives the slug \<open>a_b\<close>, and the underscore is
  not in \<open>[a-z0-9-]\<close>.
\<close>

theorem slug_underscore_counterexample:
  "slug (doc (preValidate sampleEnv (newEvent (str ''a_b'')))) = Some (str ''a_b'')
   \<and> \<not> list_all specSlugChar (str ''a_b'')"
  by code_simp

text \<open>
  C5 at a title with an empty base. The base candidate of \<open>!!!\<close> is \<open>untitled\<close>; when
  another record has that slug, the slug assigned is a hyphen followed by the
  token, not \<open>untitled\<close> followed by a hyphen and the token.
\<close>

theorem slug_untitled_collision:
  "slugBase (str ''!!!'') = []
   \<and> firstCandidate (str ''!!!'') = str ''untitled''
   \<and> collides sampleEnv 9 (str ''untitled'')
   \<and> slug (doc (preValidate sampleEnv (newEvent (str ''!!!'')))) = Some (str ''-07elsz'')"
  by code_simp

text \<open>
  With a base that is not empty, a collision on the base gives a slug other than
  the base: the base, a hyphen and a token, or the timestamp candidate.
\<close>

lemma slug_collision_suffix:
  assumes "slugBase t \<noteq> []" and "collides e self (slugBase t)"
  shows "candidate (deriveSlug e self t) \<noteq> slugBase t
    \<and> candidate (deriveSlug e self t)
        \<in> {retryCandidate e t 0, retryCandidate e t 1, retryCandidate e t 2, fallbackCandidate e t}"
  using assms
  by (simp add: deriveSlug_cases firstCandidate_def retryCandidate_def fallbackCandidate_def)

text \<open>
  C8. A run of the hook issues at most four collision queries. A slug derivation
  issues one query for the base candidate and one for each randomized candidate it
  tries; it tries them in order, at most three, and stops at the first that does
  not collide; when all three collide it takes the timestamp candidate without
  another query.
\<close>

theorem slug_queries_bounded:
  "queries (preValidate e d) \<le> 4
   \<and> reads (deriveSlug e self t) =
       (if \<not> collides e self (firstCandidate t) then 1
        else if \<not> collides e self (retryCandidate e t 0) then 2
        else if \<not> collides e self (retryCandidate e t 1) then 3
        else 4)
   \<and> candidate (deriveSlug e self t) =
       (if \<not> collides e self (firstCandidate t) then firstCandidate t
        else if \<not> collides e self (retryCandidate e t 0) then retryCandidate e t 0
        else if \<not> collides e self (retryCandidate e t 1) then retryCandidate e t 1
        else if \<not> collides e self (retryCandidate e t 2) then retryCandidate e t 2
        else fallbackCandidate e t)"
proof -
  have r: "reads (deriveSlug e' s' t') \<le> 4" for e' s' t'
    by (simp add: deriveSlug_cases)
  have "queries (preValidate e d) \<le> 4"
    using r [of e "oid d"]
    by (simp add: preValidate_frame slugStage_def Let_def split: option.splits)
  then show ?thesis
    by (simp add: deriveSlug_cases)
qed

theorem slug_queries_bounded_witness:
  "collides sampleEnv 9 (firstCandidate (str ''My Event''))
   \<and> \<not> collides sampleEnv 9 (retryCandidate sampleEnv (str ''My Event'') 0)
   \<and> reads (deriveSlug sampleEnv 9 (str ''My Event'')) = 2
   \<and> candidate (deriveSlug sampleEnv 9 (str ''My Event'')) = str ''my-event-07elsz''
   \<and> queries (preValidate sampleEnv (newEvent (str ''My Event''))) \<le> 4"
proof -
  have a: "collides sampleEnv 9 (firstCandidate (str ''My Event''))"
    by code_simp
  have b: "\<not> collides sampleEnv 9 (retryCandidate sampleEnv (str ''My Event'') 0)"
    by code_simp
  have c: "retryCandidate sampleEnv (str ''My Event'') 0 = str ''my-event-07elsz''"
    by code_simp
  show ?thesis
    using slug_queries_bounded [of sampleEnv "newEvent (str ''My Event'')" 9 "str ''My Event''"]
      a b c by simp
qed

text \<open>
  The timestamp candidate is taken unchecked: here the base and the three
  randomized candidates collide, four queries are issued, and the slug assigned is
  the timestamp candidate although another record has it already.
\<close>

lemma base36_example: "numToString 36 1700000000000 = str ''loyw3v28''"
  by (simp add: numToString_def digitsOf.simps alphabet_def)

lemma fallback_unchecked_example:
  "candidate (deriveSlug crowdedEnv 9 (str ''My Event'')) = str ''my-event-loyw3v28000000''
   \<and> reads (deriveSlug crowdedEnv 9 (str ''My Event'')) = 4
   \<and> collides crowdedEnv 9 (str ''my-event-loyw3v28000000'')"
proof -
  have b: "slugBase (str ''My Event'') = str ''my-event''" by code_simp
  have t: "token crowdedEnv k = str ''000000''" for k
    by (simp add: token_def generateShortId_def crowdedEnv_def alphabet_def upt_rec_numeral
        upt_conv_Cons)
  have n: "now crowdedEnv = 1700000000000" by (simp add: crowdedEnv_def)
  have c: "collides crowdedEnv 9 (str ''my-event'')"
    "collides crowdedEnv 9 (str ''my-event-000000'')"
    "collides crowdedEnv 9 (str ''my-event-loyw3v28000000'')"
    by (simp_all add: collides_def crowdedEnv_def)
  have fc: "firstCandidate (str ''My Event'') = str ''my-event''"
    using b by (simp add: firstCandidate_def)
  have rc: "retryCandidate crowdedEnv (str ''My Event'') k = str ''my-event-000000''" for k
    using b t [of k] by (simp add: retryCandidate_def)
  have fb: "fallbackCandidate crowdedEnv (str ''My Event'') = str ''my-event-loyw3v28000000''"
    using b t [of 3] n base36_example by (simp add: fallbackCandidate_def)
  show ?thesis
    unfolding deriveSlug_cases fc rc fb using c by simp
qed

section \<open>Properties of the runtime's date arithmetic\<close>

text \<open>
  \<open>YearFromTime\<close> is the year ECMA-262 specifies: the one whose days contain the
  day of the time value.
\<close>

lemma DayFromYear_1970: "DayFromYear 1970 = 0"
  by (simp add: DayFromYear_def)

lemma DayFromYear_span:
  "DayFromYear y + 365 * int n \<le> DayFromYear (y + int n)
   \<and> DayFromYear (y + int n) \<le> DayFromYear y + 366 * int n"
proof (induction n)
  case 0
  show ?case by simp
next
  case (Suc n)
  have "DayFromYear (y + int (Suc n)) = DayFromYear (y + int n) + DaysInYear (y + int n)"
    using DayFromYear_Suc [of "y + int n"] by (simp add: ac_simps)
  then show ?case
    using Suc DaysInYear_cases [of "y + int n"] by auto
qed

lemma DayFromYear_mono: "y \<le> y' \<Longrightarrow> DayFromYear y \<le> DayFromYear y'"
  using DayFromYear_span [of y "nat (y' - y)"] by simp

lemma DayFromYear_strict: "y < y' \<Longrightarrow> DayFromYear y < DayFromYear y'"
  using DayFromYear_span [of y "nat (y' - y)"] by simp

lemma DayFromYear_after_1970:
  "0 \<le> k \<Longrightarrow> 365 * k \<le> DayFromYear (1970 + k) \<and> DayFromYear (1970 + k) \<le> 366 * k"
  using DayFromYear_span [of 1970 "nat k"] by (simp add: DayFromYear_1970)

lemma DayFromYear_before_1970:
  "k \<le> 0 \<Longrightarrow> 366 * k \<le> DayFromYear (1970 + k) \<and> DayFromYear (1970 + k) \<le> 365 * k"
  using DayFromYear_span [of "1970 + k" "nat (- k)"] by (simp add: DayFromYear_1970)

lemma TimeFromYear_le: "TimeFromYear y \<le> D * msPerDay \<longleftrightarrow> DayFromYear y \<le> D"
  by (simp add: TimeFromYear_def msPerDay_def)

lemma Day_bounds: "Day t * msPerDay \<le> t \<and> t < (Day t + 1) * msPerDay"
proof -
  define q r where "q = t div msPerDay" and "r = t mod msPerDay"
  have "t = q * msPerDay + r" by (simp add: q_def r_def)
  moreover have "0 \<le> r" "r < msPerDay"
    by (simp_all add: r_def msPerDay_def)
  ultimately show ?thesis
    unfolding Day_def q_def [symmetric] by (simp add: algebra_simps)
qed

lemma TimeFromYear_Day: "TimeFromYear y \<le> t \<longleftrightarrow> DayFromYear y \<le> Day t"
proof
  assume a: "TimeFromYear y \<le> t"
  show "DayFromYear y \<le> Day t"
  proof (rule ccontr)
    assume "\<not> DayFromYear y \<le> Day t"
    then have "Day t + 1 \<le> DayFromYear y" by simp
    then have "(Day t + 1) * msPerDay \<le> DayFromYear y * msPerDay"
      by (simp add: msPerDay_def)
    then show False using a Day_bounds [of t] by (simp add: TimeFromYear_def mult.commute)
  qed
next
  assume "DayFromYear y \<le> Day t"
  then have "DayFromYear y * msPerDay \<le> Day t * msPerDay" by (simp add: msPerDay_def)
  then show "TimeFromYear y \<le> t"
    using Day_bounds [of t] by (simp add: TimeFromYear_def mult.commute)
qed

lemma Day_of_day: "Day (D * msPerDay) = D"
  by (simp add: Day_def msPerDay_def)

lemma yearSearch_bounds:
  "TimeFromYear y0 \<le> t \<Longrightarrow>
   TimeFromYear (yearSearch y0 t) \<le> t \<and> t < TimeFromYear (yearSearch y0 t + 1)"
proof (induction y0 t rule: yearSearch.induct)
  case (1 y t)
  show ?case
  proof (cases "TimeFromYear (y + 1) \<le> t")
    case True
    then show ?thesis using 1 by (subst (1 2) yearSearch.simps) simp
  next
    case False
    then show ?thesis using 1 by (subst (1 2) yearSearch.simps) simp
  qed
qed

lemma year_estimate:
  "DayFromYear (1970 + (if 0 \<le> D then D div 366 else D div 365)) \<le> D"
proof (cases "0 \<le> D")
  case True
  define k where "k = D div 366"
  have "366 * k + D mod 366 = D" "0 \<le> D mod 366" by (simp_all add: k_def)
  then have "366 * k \<le> D" by linarith
  moreover have "0 \<le> k" using True by (simp add: k_def pos_imp_zdiv_nonneg_iff)
  ultimately show ?thesis
    using True DayFromYear_after_1970 [of k] by (simp add: k_def)
next
  case False
  define k where "k = D div 365"
  have "365 * k + D mod 365 = D" "0 \<le> D mod 365" by (simp_all add: k_def)
  then have le: "365 * k \<le> D" by linarith
  have "k < 0" using False by (simp add: k_def div_neg_pos_less0)
  then show ?thesis
    using False le DayFromYear_before_1970 [of k] by (simp add: k_def)
qed

lemma YearFromTime_bounds:
  "DayFromYear (YearFromTime t) \<le> Day t
   \<and> Day t < DayFromYear (YearFromTime t) + DaysInYear (YearFromTime t)"
proof -
  let ?y0 = "1970 + (if 0 \<le> Day t then Day t div 366 else Day t div 365)"
  have "TimeFromYear ?y0 \<le> t"
    unfolding TimeFromYear_Day by (rule year_estimate)
  then have "TimeFromYear (YearFromTime t) \<le> t \<and> t < TimeFromYear (YearFromTime t + 1)"
    unfolding YearFromTime_def by (rule yearSearch_bounds)
  then show ?thesis
    using TimeFromYear_Day [of "YearFromTime t" t] TimeFromYear_Day [of "YearFromTime t + 1" t]
    by (simp add: DayFromYear_Suc)
qed

lemma YearFromTime_unique:
  assumes "DayFromYear y \<le> Day t" and "Day t < DayFromYear y + DaysInYear y"
  shows "YearFromTime t = y"
proof (rule ccontr)
  assume n: "YearFromTime t \<noteq> y"
  let ?Y = "YearFromTime t"
  note b = YearFromTime_bounds [of t]
  show False
  proof (cases "?Y < y")
    case True
    then have "DayFromYear (?Y + 1) \<le> DayFromYear y" by (intro DayFromYear_mono) simp
    then show False using b assms by (simp add: DayFromYear_Suc)
  next
    case False
    then have "y + 1 \<le> ?Y" using n by simp
    then have "DayFromYear (y + 1) \<le> DayFromYear ?Y" by (rule DayFromYear_mono)
    then show False using b assms by (simp add: DayFromYear_Suc)
  qed
qed

lemma month_index_cases:
  "0 \<le> mn \<Longrightarrow> mn \<le> 11 \<Longrightarrow>
   mn = 0 \<or> mn = 1 \<or> mn = 2 \<or> mn = 3 \<or> mn = 4 \<or> mn = 5 \<or> mn = 6 \<or> mn = 7 \<or> mn = 8
   \<or> mn = 9 \<or> mn = 10 \<or> mn = (11::int)"
  by arith

lemma month_forward:
  assumes l: "l = 0 \<or> l = 1" and mn: "0 \<le> mn" "mn \<le> 11" and d: "1 \<le> d" "d \<le> monthLen mn l"
  shows "0 \<le> daysBeforeMonth mn l + d - 1 \<and> daysBeforeMonth mn l + d - 1 < 365 + l
    \<and> monthOfDay (daysBeforeMonth mn l + d - 1) l = mn
    \<and> dateOfDay mn (daysBeforeMonth mn l + d - 1) l = d"
  using month_index_cases [OF mn] l d
  by (elim disjE) (simp_all add: monthLen_def daysBeforeMonth_def monthOfDay_def dateOfDay_def)

lemma month_backward:
  assumes l: "l = 0 \<or> l = 1" and w: "0 \<le> w" "w < 365 + l"
  shows "0 \<le> monthOfDay w l \<and> monthOfDay w l \<le> 11
    \<and> 1 \<le> dateOfDay (monthOfDay w l) w l
    \<and> dateOfDay (monthOfDay w l) w l \<le> monthLen (monthOfDay w l) l
    \<and> w = daysBeforeMonth (monthOfDay w l) l + dateOfDay (monthOfDay w l) w l - 1"
  using l w
  by (elim disjE) (simp_all add: monthLen_def daysBeforeMonth_def monthOfDay_def dateOfDay_def)

text \<open>
  The round trip through \<open>Date.UTC\<close> succeeds exactly for the real dates of the years
  100 and later (up to 9999, the largest year four digits can write).
\<close>

lemma int_mod_0: "int y mod int k = 0 \<longleftrightarrow> y mod k = 0"
  by (metis of_nat_eq_0_iff zmod_int)

lemma leap_int: "DaysInYear (int y) = 366 \<longleftrightarrow> leapYear y"
  using int_mod_0 [of y 4] int_mod_0 [of y 100] int_mod_0 [of y 400]
  by (auto simp: DaysInYear_def leapYear_def)

lemma leapDays_cases: "leapDays y = 0 \<or> leapDays y = 1"
  by (simp add: leapDays_def)

lemma DaysInYear_leapDays: "DaysInYear y = 365 + leapDays y"
  using DaysInYear_cases [of y] by (auto simp: leapDays_def)

lemma monthLen_int:
  "1 \<le> m \<Longrightarrow> m \<le> 12 \<Longrightarrow> monthLen (int m - 1) (leapDays (int y)) = int (daysInMonth y m)"
  by (auto simp: monthLen_def daysInMonth_def leapDays_def leap_int)

text \<open>The accessors on the time value of a whole day.\<close>

lemma accessors_of_day:
  assumes "DayFromYear y \<le> D" and "D < DayFromYear y + DaysInYear y"
  shows "YearFromTime (D * msPerDay) = y"
    and "MonthFromTime (D * msPerDay) = monthOfDay (D - DayFromYear y) (leapDays y)"
    and "DateFromTime (D * msPerDay)
      = dateOfDay (monthOfDay (D - DayFromYear y) (leapDays y)) (D - DayFromYear y) (leapDays y)"
proof -
  show y: "YearFromTime (D * msPerDay) = y"
    using assms by (intro YearFromTime_unique) (simp_all add: Day_of_day)
  then show "MonthFromTime (D * msPerDay) = monthOfDay (D - DayFromYear y) (leapDays y)"
    by (simp add: MonthFromTime_def DayWithinYear_def InLeapYear_def Day_of_day leapDays_def)
  with y show "DateFromTime (D * msPerDay)
      = dateOfDay (monthOfDay (D - DayFromYear y) (leapDays y)) (D - DayFromYear y) (leapDays y)"
    by (simp add: DateFromTime_def DayWithinYear_def InLeapYear_def Day_of_day leapDays_def)
qed

lemma MakeDay_in_year:
  "0 \<le> mn \<Longrightarrow> mn \<le> 11 \<Longrightarrow>
   MakeDay y mn d = DayFromYear y + daysBeforeMonth mn (leapDays y) + d - 1"
  by (simp add: MakeDay_def Let_def leapDays_def)

lemma DayFromYear_range:
  assumes "0 \<le> y" "y \<le> 10000"
  shows "- 1000000 \<le> DayFromYear y \<and> DayFromYear y \<le> 3000000"
proof (cases "1970 \<le> y")
  case True
  then show ?thesis using DayFromYear_after_1970 [of "y - 1970"] assms by simp
next
  case False
  then show ?thesis using DayFromYear_before_1970 [of "y - 1970"] assms by simp
qed

lemma roundTrips_real:
  assumes y: "100 \<le> y" "y \<le> 9999" and r: "realDate y m d"
  shows "roundTrips y m d"
proof -
  let ?l = "leapDays (int y)"
  let ?w = "daysBeforeMonth (int m - 1) ?l + int d - 1"
  let ?D = "DayFromYear (int y) + ?w"
  have m: "1 \<le> m" "m \<le> 12" and d: "1 \<le> d" "d \<le> daysInMonth y m"
    using r by (simp_all add: realDate_def)
  have "int d \<le> monthLen (int m - 1) ?l"
    using d monthLen_int [OF m, of y] by simp
  then have f: "0 \<le> ?w \<and> ?w < 365 + ?l \<and> monthOfDay ?w ?l = int m - 1
      \<and> dateOfDay (int m - 1) ?w ?l = int d"
    using month_forward [of ?l "int m - 1" "int d"] leapDays_cases [of "int y"] m d by simp
  have mk: "MakeDay (MakeFullYear (int y)) (int m - 1) (int d) = ?D"
    using y m by (simp add: MakeFullYear_def MakeDay_in_year)
  have "- 1000000 \<le> DayFromYear (int y) \<and> DayFromYear (int y) \<le> 3000000"
    using y by (intro DayFromYear_range) simp_all
  then have "\<bar>?D * msPerDay\<bar> \<le> 8640000000000000"
    using f leapDays_cases [of "int y"] by (auto simp: msPerDay_def)
  then have utc: "Date_UTC (int y) (int m - 1) (int d) = Some (?D * msPerDay)"
    by (simp add: Date_UTC_def mk MakeDate_def TimeClip_def)
  have b: "DayFromYear (int y) \<le> ?D" "?D < DayFromYear (int y) + DaysInYear (int y)"
    using f by (simp_all add: DaysInYear_leapDays)
  show ?thesis
    unfolding roundTrips_def utc Let_def getUTCFullYear_def getUTCMonth_def getUTCDate_def
    using accessors_of_day [OF b] f by simp
qed

lemma real_roundTrips:
  assumes "roundTrips y m d"
  shows "100 \<le> y \<and> realDate y m d"
proof -
  let ?D = "MakeDay (MakeFullYear (int y)) (int m - 1) (int d)"
  let ?t = "?D * msPerDay"
  have utc: "Date_UTC (int y) (int m - 1) (int d) = Some ?t"
    using assms
    by (auto simp: roundTrips_def Let_def Date_UTC_def MakeDate_def TimeClip_def
        getUTCFullYear_def split: if_splits)
  have acc: "YearFromTime ?t = int y" "MonthFromTime ?t + 1 = int m" "DateFromTime ?t = int d"
    using assms unfolding roundTrips_def utc Let_def
    by (simp_all add: getUTCFullYear_def getUTCMonth_def getUTCDate_def)
  let ?l = "leapDays (int y)"
  let ?w = "?D - DayFromYear (int y)"
  have bnd: "DayFromYear (int y) \<le> ?D" "?D < DayFromYear (int y) + DaysInYear (int y)"
    using YearFromTime_bounds [of ?t] acc(1) by (simp_all add: Day_of_day)
  then have w: "0 \<le> ?w" "?w < 365 + ?l"
    by (simp_all add: DaysInYear_leapDays)
  note bw = month_backward [OF leapDays_cases [of "int y"] w]
  have "MonthFromTime ?t = monthOfDay ?w ?l"
    by (rule accessors_of_day(2) [OF bnd])
  then have mo: "monthOfDay ?w ?l = int m - 1"
    using acc(2) by simp
  have "DateFromTime ?t = dateOfDay (monthOfDay ?w ?l) ?w ?l"
    by (rule accessors_of_day(3) [OF bnd])
  then have da: "dateOfDay (int m - 1) ?w ?l = int d"
    unfolding mo using acc(3) by simp
  have m: "1 \<le> m" "m \<le> 12"
    using bw mo by simp_all
  have "int d \<le> monthLen (int m - 1) ?l" "1 \<le> int d"
    using bw mo da by simp_all
  then have real: "realDate y m d"
    using m monthLen_int [OF m, of y] by (simp add: realDate_def)
  have "100 \<le> y"
  proof (rule ccontr)
    assume "\<not> 100 \<le> y"
    then have full: "MakeFullYear (int y) = 1900 + int y"
      by (simp add: MakeFullYear_def)
    have "?D = DayFromYear (1900 + int y) + daysBeforeMonth (int m - 1) (leapDays (1900 + int y))
        + int d - 1"
      unfolding full using m by (intro MakeDay_in_year) simp_all
    moreover have "0 \<le> daysBeforeMonth (int m - 1) (leapDays (1900 + int y))"
      using leapDays_cases [of "1900 + int y"] by (auto simp: daysBeforeMonth_def)
    ultimately have "DayFromYear (1900 + int y) \<le> ?D"
      using \<open>1 \<le> int d\<close> by simp
    moreover have "DayFromYear (int y + 1) \<le> DayFromYear (1900 + int y)"
      by (intro DayFromYear_mono) simp
    ultimately show False
      using bnd by (simp add: DayFromYear_Suc)
  qed
  then show ?thesis using real by simp
qed

lemma roundTrips_iff: "y \<le> 9999 \<Longrightarrow> roundTrips y m d \<longleftrightarrow> 100 \<le> y \<and> realDate y m d"
  using roundTrips_real real_roundTrips by blast

section \<open>Date normalization\<close>

text \<open>
  C2 at a date of the first century. \<open>0050-06-15\<close> matches the pattern and 15 June
  of the year 50 is a real date, but \<open>Date.UTC\<close> reads a year from 0 to 99 as 1900
  plus that year, the year read back is 1950, and the date is rejected.
\<close>

theorem date_two_digit_year_rejected:
  "test dateRegex (str ''0050-06-15'') \<and> realDate 50 6 15
   \<and> normalizeDate (Some (str ''0050-06-15'')) = Inl (Error ''Invalid date components'')"
  by code_simp

theorem date_two_digit_year_rejected_witness:
  "normalizeDate (Some (str ''0050-06-15'')) = Inl (Error ''Invalid date components'')"
  using date_two_digit_year_rejected by blast

text \<open>The examples of the specification.\<close>

lemma date_examples:
  "normalizeDate (Some (str ''2024-02-30'')) = Inl (Error ''Invalid date components'')
   \<and> normalizeDate (Some (str ''2024-3-5'')) = Inl (Error ''Date must be in YYYY-MM-DD format'')
   \<and> normalizeDate (Some (str ''2024-03-05'')) = Inr (str ''2024-03-05'')
   \<and> normalizeDate None = Inl (Error ''Date must be a string in YYYY-MM-DD format'')"
  by code_simp

text \<open>
  C9 at a date of the second century. \<open>0100-01-01\<close> is accepted, and the year is
  written back without its leading zero: month and day are padded, the year is not.
  The stored value differs from the input, and normalization would reject it.
\<close>

theorem date_year_not_padded:
  "normalizeDate (Some (str ''0100-01-01'')) = Inr (str ''100-01-01'')
   \<and> str ''100-01-01'' \<noteq> str ''0100-01-01''
   \<and> normalizeDate (Some (str ''100-01-01'')) = Inl (Error ''Date must be in YYYY-MM-DD format'')"
  by code_simp

theorem date_year_not_padded_witness:
  "normalizeDate (Some (str ''0100-01-01'')) = Inr (str ''100-01-01'')"
  using date_year_not_padded by blast

section \<open>Date normalization, in general\<close>

text \<open>
  From the year 0100 on, normalization accepts exactly the strings
  \<open>YYYY-MM-DD\<close> that name a real date; it stores the year as \<open>String\<close> writes the
  number, so from the year 1000 on the stored value is the input itself.
\<close>

lemma dateRegex_spec:
  "test dateRegex s \<longleftrightarrow>
     (\<exists>Y M D. s = Y @ [HYPHEN] @ M @ [HYPHEN] @ D \<and> digits 4 Y \<and> digits 2 M \<and> digits 2 D)"
  unfolding test_accepts dateRegex_def digits_def
  by (simp add: accepts_Seq [of "Times _ _"] accepts_Times_Cls accepts_Seq_Cls Chr_def) blast

lemma parseInt_snoc: "parseInt (x @ [c]) = 10 * parseInt x + digitVal c"
  by (simp add: parseInt_def)

lemma digitVal_le: "isDigit c \<Longrightarrow> digitVal c \<le> 9"
  by (auto simp: isDigit_unat digitVal_def)

lemma parseInt_less: "list_all isDigit x \<Longrightarrow> parseInt x < 10 ^ length x"
proof (induction x rule: rev_induct)
  case Nil
  show ?case by simp
next
  case (snoc c x)
  then have "parseInt x < 10 ^ length x" "digitVal c \<le> 9"
    by (simp_all add: digitVal_le)
  then have "10 * parseInt x + digitVal c < 10 * 10 ^ length x" by linarith
  then show ?case by (simp add: parseInt_snoc)
qed

lemma parseInt_Cons: "parseInt (c # x) = digitVal c * 10 ^ length x + parseInt x"
proof (induction x rule: rev_induct)
  case Nil
  show ?case by simp
next
  case (snoc d x)
  have "parseInt (c # x @ [d]) = 10 * parseInt (c # x) + digitVal d"
    using parseInt_snoc [of "c # x" d] by simp
  then show ?case by (simp add: snoc parseInt_snoc algebra_simps)
qed

lemma digit_chars:
  "isDigit c \<longleftrightarrow> c = 0x30 \<or> c = 0x31 \<or> c = 0x32 \<or> c = 0x33 \<or> c = 0x34 \<or> c = 0x35
     \<or> c = 0x36 \<or> c = 0x37 \<or> c = 0x38 \<or> c = 0x39"
  by (simp add: isDigit_unat word_unat_eq_iff) arith

lemma alphabet_digit: "isDigit c \<Longrightarrow> alphabet ! digitVal c = c"
  unfolding digit_chars by (elim disjE) (simp_all add: digitVal_def alphabet_def)

lemma digitVal_0: "isDigit c \<Longrightarrow> digitVal c = 0 \<longleftrightarrow> c = ZERO"
  by (auto simp: isDigit_unat digitVal_def word_unat_eq_iff)

lemma digitVal_pos: "isDigit c \<Longrightarrow> c \<noteq> ZERO \<Longrightarrow> 0 < digitVal c"
  using digitVal_0 [of c] by simp

lemma parseInt_pos:
  "list_all isDigit x \<Longrightarrow> x \<noteq> [] \<Longrightarrow> hd x \<noteq> ZERO \<Longrightarrow> 0 < parseInt x"
  by (cases x) (auto simp: parseInt_Cons digitVal_pos)

lemma digitsOf_small: "n < 10 \<Longrightarrow> digitsOf 10 n = [alphabet ! n]"
  by (subst digitsOf.simps) simp

lemma digitsOf_step:
  "10 \<le> n \<Longrightarrow> digitsOf 10 n = digitsOf 10 (n div 10) @ [alphabet ! (n mod 10)]"
  by (subst digitsOf.simps) simp

lemma String_parseInt:
  "list_all isDigit x \<Longrightarrow> x \<noteq> [] \<Longrightarrow> hd x \<noteq> ZERO \<Longrightarrow> String (parseInt x) = x"
proof (induction x rule: rev_induct)
  case Nil
  then show ?case by simp
next
  case (snoc c x)
  then have c: "isDigit c" and x: "list_all isDigit x" by simp_all
  show ?case
  proof (cases "x = []")
    case True
    then show ?thesis
      using c digitVal_le [OF c]
      by (simp add: String_def numToString_def digitsOf_small alphabet_digit)
  next
    case False
    then have h: "hd x \<noteq> ZERO" using snoc.prems by simp
    then have ih: "String (parseInt x) = x" using snoc.IH x False by simp
    have p: "0 < parseInt x" using x False h by (rule parseInt_pos)
    have dv: "digitVal c \<le> 9" using c by (rule digitVal_le)
    let ?n = "10 * parseInt x + digitVal c"
    have "10 \<le> ?n" using p by simp
    moreover have "?n div 10 = parseInt x" "?n mod 10 = digitVal c" using dv by simp_all
    ultimately have "digitsOf 10 ?n = digitsOf 10 (parseInt x) @ [alphabet ! digitVal c]"
      using digitsOf_step [of ?n] by simp
    then show ?thesis
      using ih c by (simp add: String_def numToString_def parseInt_snoc alphabet_digit)
  qed
qed

lemma digits2: "digits 2 M \<longleftrightarrow> (\<exists>a b. M = [a, b] \<and> isDigit a \<and> isDigit b)"
  by (auto simp: digits_def len2)

lemma pad2: "digits 2 M \<Longrightarrow> padStart0 2 (String (parseInt M)) = M"
proof -
  assume "digits 2 M"
  then obtain a b where M: "M = [a, b]" and a: "isDigit a" and b: "isDigit b"
    unfolding digits2 by blast
  show ?thesis
  proof (cases "a = ZERO")
    case True
    have "String (parseInt [b]) = [b]"
      using b digitVal_le [OF b]
      by (simp add: String_def numToString_def digitsOf_small alphabet_digit)
    then show ?thesis using True M by (simp add: padStart0_def digitVal_def)
  next
    case False
    then have "String (parseInt M) = M"
      using M a b by (intro String_parseInt) simp_all
    then show ?thesis using M by (simp add: padStart0_def)
  qed
qed

lemma captures:
  assumes "length Y = 4" "length M = 2" "length D = 2"
  shows "take 4 (Y @ [HYPHEN] @ M @ [HYPHEN] @ D) = Y"
    and "take 2 (drop 5 (Y @ [HYPHEN] @ M @ [HYPHEN] @ D)) = M"
    and "take 2 (drop 8 (Y @ [HYPHEN] @ M @ [HYPHEN] @ D)) = D"
  using assms by simp_all

lemma normalizeDate_matched:
  assumes "digits 4 Y" "digits 2 M" "digits 2 D"
  shows "normalizeDate (Some (Y @ [HYPHEN] @ M @ [HYPHEN] @ D)) =
     (if roundTrips (parseInt Y) (parseInt M) (parseInt D)
      then Inr (String (parseInt Y) @ [HYPHEN] @ M @ [HYPHEN] @ D)
      else Inl (Error ''Invalid date components''))"
proof -
  have t: "test dateRegex (Y @ [HYPHEN] @ M @ [HYPHEN] @ D)"
    unfolding dateRegex_spec using assms by blast
  have l: "length Y = 4" "length M = 2" "length D = 2"
    using assms by (simp_all add: digits_def)
  show ?thesis
    unfolding normalizeDate_def option.case captures [OF l] Let_def
    using t pad2 [OF assms(2)] pad2 [OF assms(3)]
    by (auto simp: roundTrips_def Let_def)
qed

lemma normalizeDate_accepts:
  assumes "digits 4 Y" "digits 2 M" "digits 2 D"
    and "100 \<le> parseInt Y" and "realDate (parseInt Y) (parseInt M) (parseInt D)"
  shows "normalizeDate (Some (Y @ [HYPHEN] @ M @ [HYPHEN] @ D))
    = Inr (String (parseInt Y) @ [HYPHEN] @ M @ [HYPHEN] @ D)"
proof -
  have "parseInt Y < 10 ^ 4"
    using assms(1) parseInt_less [of Y] by (simp add: digits_def)
  then have "parseInt Y \<le> 9999" by simp
  then have "roundTrips (parseInt Y) (parseInt M) (parseInt D)"
    using assms(4,5) by (simp add: roundTrips_iff)
  then show ?thesis
    using normalizeDate_matched [OF assms(1-3)] by simp
qed

lemma normalizeDate_only:
  assumes "normalizeDate v = Inr out"
  shows "\<exists>Y M D. v = Some (Y @ [HYPHEN] @ M @ [HYPHEN] @ D)
    \<and> digits 4 Y \<and> digits 2 M \<and> digits 2 D
    \<and> 100 \<le> parseInt Y \<and> realDate (parseInt Y) (parseInt M) (parseInt D)"
proof (cases v)
  case None
  then show ?thesis using assms by (simp add: normalizeDate_def)
next
  case (Some s)
  then have "test dateRegex s"
    using assms by (auto simp: normalizeDate_def split: if_splits)
  then obtain Y M D where s: "s = Y @ [HYPHEN] @ M @ [HYPHEN] @ D"
    and d: "digits 4 Y" "digits 2 M" "digits 2 D"
    unfolding dateRegex_spec by blast
  have "roundTrips (parseInt Y) (parseInt M) (parseInt D)"
    using assms unfolding Some s normalizeDate_matched [OF d] by (simp split: if_splits)
  then have "100 \<le> parseInt Y \<and> realDate (parseInt Y) (parseInt M) (parseInt D)"
    by (rule real_roundTrips)
  then show ?thesis using Some s d by blast
qed

lemma normalizeDate_identity:
  assumes "digits 4 Y" "digits 2 M" "digits 2 D"
    and "1000 \<le> parseInt Y" and "realDate (parseInt Y) (parseInt M) (parseInt D)"
  shows "normalizeDate (Some (Y @ [HYPHEN] @ M @ [HYPHEN] @ D))
    = Inr (Y @ [HYPHEN] @ M @ [HYPHEN] @ D)"
proof -
  obtain c Y' where Y: "Y = c # Y'" and l: "length Y' = 3"
    using assms(1) by (cases Y) (auto simp: digits_def)
  have dY: "list_all isDigit Y" using assms(1) by (simp add: digits_def)
  have "parseInt Y' < 10 ^ 3"
    using dY parseInt_less [of Y'] l unfolding Y by simp
  then have "c \<noteq> ZERO"
    using assms(4) unfolding Y parseInt_Cons by (auto simp: digitVal_def)
  then have "String (parseInt Y) = Y"
    using dY Y by (intro String_parseInt) simp_all
  moreover have "100 \<le> parseInt Y" using assms(4) by simp
  ultimately show ?thesis
    using normalizeDate_accepts [OF assms(1-3) _ assms(5)] by simp
qed

end
